theory Spec2Isabelle
  imports Complex_Main
begin

section \<open>Strings and values of the host language\<close>

text \<open>
  The add-in is written in TypeScript. Its strings are modelled as \<open>string\<close> (a list of
  8-bit characters), its arrays as lists, an optional field or an \<open>undefined\<close> result as
  \<open>option\<close>, and every \<open>throw\<close> as the left summand of a sum type. Numbers that the
  code uses as row and column indices are natural numbers; they are exact in the source
  as long as they stay below \<open>2 ^ 53\<close>.
\<close>

datatype error =
    InvalidCellAddress string   \<comment> \<open>\<open>throw new Error(`Invalid cell address: ...`)\<close>\<close>
  | InvalidFunctionExpression   \<comment> \<open>\<open>throw new Error('Invalid function expression')\<close>\<close>
  | TypeError                   \<comment> \<open>a property read or write on \<open>undefined\<close>\<close>
  | HostError                   \<comment> \<open>the spreadsheet host rejects a request\<close>

definition is_digit :: "char \<Rightarrow> bool" where
  "is_digit c = (48 \<le> (of_char c :: nat) \<and> (of_char c :: nat) \<le> 57)"

definition is_upper :: "char \<Rightarrow> bool" where
  "is_upper c = (65 \<le> (of_char c :: nat) \<and> (of_char c :: nat) \<le> 90)"

definition is_lower :: "char \<Rightarrow> bool" where
  "is_lower c = (97 \<le> (of_char c :: nat) \<and> (of_char c :: nat) \<le> 122)"

text \<open>The class \<open>[A-Z]\<close> under the \<open>i\<close> flag, the class \<open>\w\<close> and the class \<open>\s\<close>.\<close>

definition is_letter :: "char \<Rightarrow> bool" where
  "is_letter c = (is_upper c \<or> is_lower c)"

definition is_word :: "char \<Rightarrow> bool" where
  "is_word c = (is_letter c \<or> is_digit c \<or> c = CHR ''_'')"

definition is_space :: "char \<Rightarrow> bool" where
  "is_space c = ((of_char c :: nat) \<in> {9, 10, 11, 12, 13, 32, 160})"

text \<open>The class \<open>.\<close>: every character but a line terminator.\<close>

definition is_dot :: "char \<Rightarrow> bool" where
  "is_dot c = ((of_char c :: nat) \<noteq> 10 \<and> (of_char c :: nat) \<noteq> 13)"

definition upper_char :: "char \<Rightarrow> char" where
  "upper_char c = (if is_lower c then char_of ((of_char c :: nat) - 32) else c)"

definition toUpperCase :: "string \<Rightarrow> string" where
  "toUpperCase s = map upper_char s"

definition trim :: "string \<Rightarrow> string" where
  "trim s = rev (dropWhile is_space (rev (dropWhile is_space s)))"

definition startsWith :: "string \<Rightarrow> string \<Rightarrow> bool" where
  "startsWith s p = (take (length p) s = p)"

definition endsWith :: "string \<Rightarrow> string \<Rightarrow> bool" where
  "endsWith s p = (length p \<le> length s \<and> drop (length s - length p) s = p)"

text \<open>\<open>s.substring(a, b)\<close>: both ends are clamped to the length and swapped when out of order.\<close>

definition substring :: "string \<Rightarrow> nat \<Rightarrow> nat \<Rightarrow> string" where
  "substring s a b =
     (let a' = min a (length s); b' = min b (length s)
      in take (max a' b' - min a' b') (drop (min a' b') s))"

text \<open>\<open>s.split(c)\<close> for a one-character separator: at least one part, possibly empty.\<close>

fun js_split :: "char \<Rightarrow> string \<Rightarrow> string list" where
  "js_split c [] = [[]]"
| "js_split c (x # xs) =
     (if x = c then [] # js_split c xs
      else (case js_split c xs of p # ps \<Rightarrow> (x # p) # ps | [] \<Rightarrow> [[x]]))"

text \<open>\<open>xs[i]\<close>, which is \<open>undefined\<close> out of range.\<close>

definition nth_opt :: "'a list \<Rightarrow> nat \<Rightarrow> 'a option" where
  "nth_opt xs i = (if i < length xs then Some (xs ! i) else None)"

text \<open>Decimal digits of a non-negative integer, as a template literal prints it.\<close>

fun num_to_string :: "nat \<Rightarrow> string" where
  "num_to_string n =
     (if n < 10 then [char_of (48 + n)]
      else num_to_string (n div 10) @ [char_of (48 + n mod 10)])"

declare num_to_string.simps [simp del]

text \<open>\<open>parseInt(s, 10)\<close> on a string of decimal digits.\<close>

definition parseInt :: "string \<Rightarrow> nat" where
  "parseInt s = foldl (\<lambda>acc c. acc * 10 + ((of_char c :: nat) - 48)) 0 s"

text \<open>
  Cell values are \<open>any\<close> in the source. The model has the primitive values; a number is a
  real, an infinity or NaN (rounding of doubles is not modelled).
\<close>

datatype jsnum = Fin real | PosInf | NegInf | NaN

datatype jsval = JUndefined | JNull | JBool bool | JNum jsnum | JStr string

text \<open>The strict equality \<open>===\<close>: NaN differs from itself.\<close>

fun strict_eq :: "jsval \<Rightarrow> jsval \<Rightarrow> bool" where
  "strict_eq (JNum NaN) _ = False"
| "strict_eq _ (JNum NaN) = False"
| "strict_eq a b = (a = b)"

fun is_number :: "jsval \<Rightarrow> bool" where
  "is_number (JNum _) = True"
| "is_number _ = False"

text \<open>\<open>v == null\<close>: true of \<open>null\<close> and \<open>undefined\<close> only.\<close>

fun is_nullish :: "jsval \<Rightarrow> bool" where
  "is_nullish JUndefined = True"
| "is_nullish JNull = True"
| "is_nullish _ = False"

fun num_sub :: "jsnum \<Rightarrow> jsnum \<Rightarrow> jsnum" where
  "num_sub (Fin a) (Fin b) = Fin (a - b)"
| "num_sub NaN _ = NaN"
| "num_sub _ NaN = NaN"
| "num_sub PosInf PosInf = NaN"
| "num_sub NegInf NegInf = NaN"
| "num_sub PosInf _ = PosInf"
| "num_sub NegInf _ = NegInf"
| "num_sub (Fin a) PosInf = NegInf"
| "num_sub (Fin a) NegInf = PosInf"

fun num_abs :: "jsnum \<Rightarrow> jsnum" where
  "num_abs (Fin a) = Fin \<bar>a\<bar>"
| "num_abs NaN = NaN"
| "num_abs _ = PosInf"

text \<open>\<open>x > t\<close> for a finite threshold \<open>t\<close>: false when \<open>x\<close> is NaN.\<close>

fun num_gt :: "jsnum \<Rightarrow> real \<Rightarrow> bool" where
  "num_gt (Fin a) t = (a > t)"
| "num_gt PosInf t = True"
| "num_gt _ t = False"

text \<open>
  \<open>String(v)\<close>. The printing of a number is a builtin of the language that the model
  takes as the parameter \<open>num_str\<close>.
\<close>

fun to_string :: "(jsnum \<Rightarrow> string) \<Rightarrow> jsval \<Rightarrow> string" where
  "to_string num_str JUndefined = ''undefined''"
| "to_string num_str JNull = ''null''"
| "to_string num_str (JBool b) = (if b then ''true'' else ''false'')"
| "to_string num_str (JNum n) = num_str n"
| "to_string num_str (JStr s) = s"

section \<open>Regular expressions\<close>

text \<open>
  The source matches text with regular-expression literals. They are modelled by a small
  backtracking matcher: a pattern maps a position to the list of positions where a match
  of it can end, in the order in which the backtracking engine of the language tries
  them, so that the head of the list is the match the engine reports. A state is the
  index reached, the text that remains and the groups captured so far.
\<close>

datatype rx =
    Eps                     \<comment> \<open>the empty pattern\<close>
  | One "char \<Rightarrow> bool"      \<comment> \<open>one character of a class\<close>
  | Many0 "char \<Rightarrow> bool"    \<comment> \<open>\<open>c*\<close>, greedy\<close>
  | Many1 "char \<Rightarrow> bool"    \<comment> \<open>\<open>c+\<close>, greedy\<close>
  | Lazy0 "char \<Rightarrow> bool"    \<comment> \<open>\<open>c*?\<close>, lazy\<close>
  | Opt rx                  \<comment> \<open>\<open>r?\<close>, greedy\<close>
  | Seq rx rx
  | Alt rx rx
  | Grp nat rx              \<comment> \<open>capturing group number \<open>n\<close>\<close>
  | Bol                     \<comment> \<open>\<open>^\<close>\<close>
  | Eol                     \<comment> \<open>\<open>$\<close>\<close>

type_synonym caps = "(nat \<times> string) list"
type_synonym mstate = "nat \<times> string \<times> caps"

fun rmatch :: "rx \<Rightarrow> mstate \<Rightarrow> mstate list" where
  "rmatch Eps st = [st]"
| "rmatch (One p) (i, s, c) =
     (case s of [] \<Rightarrow> [] | x # xs \<Rightarrow> if p x then [(Suc i, xs, c)] else [])"
| "rmatch (Many0 p) (i, s, c) =
     map (\<lambda>k. (i + k, drop k s, c)) (rev [0..<Suc (length (takeWhile p s))])"
| "rmatch (Many1 p) (i, s, c) =
     map (\<lambda>k. (i + k, drop k s, c)) (rev [1..<Suc (length (takeWhile p s))])"
| "rmatch (Lazy0 p) (i, s, c) =
     map (\<lambda>k. (i + k, drop k s, c)) [0..<Suc (length (takeWhile p s))]"
| "rmatch (Opt r) st = rmatch r st @ [st]"
| "rmatch (Seq r1 r2) st = concat (map (rmatch r2) (rmatch r1 st))"
| "rmatch (Alt r1 r2) st = rmatch r1 st @ rmatch r2 st"
| "rmatch (Grp n r) (i, s, c) =
     map (\<lambda>(j, s', c'). (j, s', (n, take (j - i) s) # c')) (rmatch r (i, s, c))"
| "rmatch Bol (i, s, c) = (if i = 0 then [(i, s, c)] else [])"
| "rmatch Eol (i, s, c) = (if s = [] then [(i, s, c)] else [])"

text \<open>A literal character, a sequence of patterns and a literal word.\<close>

definition Lit :: "char \<Rightarrow> rx" where
  "Lit c = One (\<lambda>x. x = c)"

definition Seqs :: "rx list \<Rightarrow> rx" where
  "Seqs rs = foldr Seq rs Eps"

definition Chars :: "string \<Rightarrow> rx" where
  "Chars s = Seqs (map Lit s)"

text \<open>
  \<open>s.match(r)\<close> and \<open>r.test(s)\<close> without the \<open>g\<close> flag: the first start position, from
  the left, that has a match; the result is the start, the matched text and the groups.
\<close>

fun rx_exec :: "rx \<Rightarrow> nat \<Rightarrow> string \<Rightarrow> (nat \<times> string \<times> caps) option" where
  "rx_exec r i [] =
     (case rmatch r (i, [], []) of (j, s', c) # _ \<Rightarrow> Some (i, [], c) | [] \<Rightarrow> None)"
| "rx_exec r i (x # xs) =
     (case rmatch r (i, x # xs, []) of
        (j, s', c) # _ \<Rightarrow> Some (i, take (j - i) (x # xs), c)
      | [] \<Rightarrow> rx_exec r (Suc i) xs)"

declare rx_exec.simps [simp del]

definition rx_test :: "rx \<Rightarrow> string \<Rightarrow> bool" where
  "rx_test r s = (rx_exec r 0 s \<noteq> None)"

text \<open>
  The \<open>g\<close> flag, as \<open>while ((m = r.exec(s)) !== null)\<close> and \<open>s.replace(r, ...)\<close> use it:
  matches are taken from left to right, each search starting where the previous match
  ended. The result lists the characters that no match covers and the matches, in text
  order. After an empty match the search moves on by one character, as \<open>replace\<close> does.
\<close>

function rx_segments :: "rx \<Rightarrow> nat \<Rightarrow> string \<Rightarrow> (char + string \<times> caps) list" where
  "rx_segments r i s =
     (case rmatch r (i, s, []) of
        (j, s', c) # _ \<Rightarrow>
          if length s' < length s then Inr (take (j - i) s, c) # rx_segments r j s'
          else Inr ([], c) #
               (case s of [] \<Rightarrow> [] | x # xs \<Rightarrow> Inl x # rx_segments r (Suc i) xs)
      | [] \<Rightarrow> (case s of [] \<Rightarrow> [] | x # xs \<Rightarrow> Inl x # rx_segments r (Suc i) xs))"
  by pat_completeness auto
termination
  by (relation "measure (\<lambda>(r, i, s). length s)") auto

declare rx_segments.simps [simp del]

definition group :: "caps \<Rightarrow> nat \<Rightarrow> string option" where
  "group c n = map_of c n"

section \<open>Cell addresses\<close>

text \<open>
  \<open>columnToNumber\<close> and \<open>numberToColumn\<close> are written out three times in the source, with
  the same text, in \<open>ExcelHelper\<close>, \<open>CalculationFlowAnalyzer\<close> and (the second one)
  \<open>ComparisonHelper\<close>; \<open>addressToCoords\<close> twice, in the first two. One definition models
  the copies.
\<close>

definition columnToNumber :: "string \<Rightarrow> nat" where
  "columnToNumber column = foldl (\<lambda>num c. num * 26 + ((of_char c :: nat) - 64)) 0 column"

function numberToColumn_loop :: "nat \<Rightarrow> string \<Rightarrow> string" where
  "numberToColumn_loop num column =
     (if num > 0
      then numberToColumn_loop ((num - 1) div 26) (char_of (65 + (num - 1) mod 26) # column)
      else column)"
  by pat_completeness auto
termination
  by (relation "measure (\<lambda>(num, column). num)") auto

declare numberToColumn_loop.simps [simp del]

definition numberToColumn :: "nat \<Rightarrow> string" where
  "numberToColumn num = numberToColumn_loop num []"

text \<open>The pattern \<open>/([A-Z]+)(\d+)/i\<close> of \<open>addressToCoords\<close>.\<close>

definition coordsPattern :: rx where
  "coordsPattern = Seqs [Grp 1 (Many1 is_letter), Grp 2 (Many1 is_digit)]"

record Coords =
  row :: nat
  col :: nat

definition addressToCoords :: "string \<Rightarrow> error + Coords" where
  "addressToCoords address =
     (case rx_exec coordsPattern 0 address of
        None \<Rightarrow> Inl (InvalidCellAddress address)
      | Some (start, text, c) \<Rightarrow>
          Inr \<lparr>row = parseInt (the (group c 2)), col = columnToNumber (the (group c 1))\<rparr>)"

text \<open>\<open>CalculationFlowAnalyzer.getAddress\<close>, from one-based coordinates.\<close>

definition getAddress :: "nat \<Rightarrow> nat \<Rightarrow> string" where
  "getAddress r c = numberToColumn c @ num_to_string r"

text \<open>\<open>ExcelHelper.getCellAddress\<close>: the first corner of a range, moved by an offset.\<close>

definition getCellAddress :: "string \<Rightarrow> nat \<Rightarrow> nat \<Rightarrow> error + string" where
  "getCellAddress rangeAddress rowOffset colOffset =
     (let baseAddress = hd (js_split CHR '':'' rangeAddress)
      in case addressToCoords baseAddress of
           Inl e \<Rightarrow> Inl e
         | Inr coords \<Rightarrow>
             Inr (numberToColumn (col coords + colOffset) @ num_to_string (row coords + rowOffset)))"

section \<open>Comparison of two grids\<close>

record CellDifference =
  address :: string
  cell_formula :: string
  cell_value :: jsval
  isDifferent :: bool

record DifferenceBlock =
  startRow :: nat
  startCol :: nat
  endRow :: nat
  endCol :: nat
  referenceCells :: "CellDifference list"
  comparatorCells :: "CellDifference list"

record ComparisonOptions =
  compareFormulas :: bool
  ignoreInputs :: bool
  detectAlignment :: bool

record ComparisonResult =
  differences :: "DifferenceBlock list"
  totalDifferences :: nat
  alignmentNeeded :: bool
  insertedRows :: "nat list"
  insertedColumns :: "nat list"

text \<open>
  The reference pattern of \<open>normalizeFormula\<close> and of \<open>extractPrecedents\<close>:
  \<open>/(\[.*?\])?(\w+!)?(\$?[A-Z]+\$?\d+(?::\$?[A-Z]+\$?\d+)?)/gi\<close>.
\<close>

definition cellPattern :: rx where
  "cellPattern =
     Seqs [Opt (Lit CHR ''$''), Many1 is_letter, Opt (Lit CHR ''$''), Many1 is_digit]"

definition refPattern :: rx where
  "refPattern =
     Seqs [Opt (Grp 1 (Seqs [Lit CHR ''['', Lazy0 is_dot, Lit CHR '']''])),
           Opt (Grp 2 (Seqs [Many1 is_word, Lit CHR ''!''])),
           Grp 3 (Seqs [cellPattern, Opt (Seqs [Lit CHR '':'', cellPattern])])]"

definition normalizeFormula :: "string \<Rightarrow> string" where
  "normalizeFormula formula =
     (if formula = [] then formula
      else if startsWith formula ''='' then
        concat (map (case_sum (\<lambda>x. [x]) (\<lambda>m. ''REF'')) (rx_segments refPattern 0 formula))
      else formula)"

definition areFormulasDifferent :: "string \<Rightarrow> string \<Rightarrow> bool \<Rightarrow> bool" where
  "areFormulasDifferent formula1 formula2 ignore =
     (if ignore then normalizeFormula formula1 \<noteq> normalizeFormula formula2
      else formula1 \<noteq> formula2)"

definition areValuesDifferent :: "(jsnum \<Rightarrow> string) \<Rightarrow> jsval \<Rightarrow> jsval \<Rightarrow> bool" where
  "areValuesDifferent num_str value1 value2 =
     (if strict_eq value1 value2 then False
      else if is_number value1 \<and> is_number value2 then
        (case (value1, value2) of
           (JNum a, JNum b) \<Rightarrow> num_gt (num_abs (num_sub a b)) (1 / 10 ^ 10)
         | _ \<Rightarrow> False)
      else if is_nullish value1 \<noteq> is_nullish value2 then True
      else to_string num_str value1 \<noteq> to_string num_str value2)"

definition isAdjacent :: "DifferenceBlock \<Rightarrow> nat \<Rightarrow> nat \<Rightarrow> bool" where
  "isAdjacent block r c =
     (int r \<ge> int (startRow block) - 1 \<and> r \<le> endRow block + 1 \<and>
      int c \<ge> int (startCol block) - 1 \<and> c \<le> endCol block + 1)"

text \<open>\<open>ComparisonHelper.getAddress\<close>, from zero-based indices.\<close>

definition getAddress0 :: "nat \<Rightarrow> nat \<Rightarrow> string" where
  "getAddress0 r c = numberToColumn (c + 1) @ num_to_string (r + 1)"

text \<open>\<open>grid[row]?.[col]\<close>.\<close>

definition cellAt :: "'a list list \<Rightarrow> nat \<Rightarrow> nat \<Rightarrow> 'a option" where
  "cellAt grid r c = (case nth_opt grid r of None \<Rightarrow> None | Some line \<Rightarrow> nth_opt line c)"

definition formulaAt :: "string list list \<Rightarrow> nat \<Rightarrow> nat \<Rightarrow> string" where
  "formulaAt grid r c = (case cellAt grid r c of None \<Rightarrow> [] | Some f \<Rightarrow> f)"

definition valueAt :: "jsval list list \<Rightarrow> nat \<Rightarrow> nat \<Rightarrow> jsval" where
  "valueAt grid r c = (case cellAt grid r c of None \<Rightarrow> JUndefined | Some v \<Rightarrow> v)"

definition firstRowLength :: "'a list list \<Rightarrow> nat" where
  "firstRowLength grid = (case nth_opt grid 0 of None \<Rightarrow> 0 | Some line \<Rightarrow> length line)"

text \<open>
  The variables that the two loops of \<open>compareRanges\<close> update: the blocks already
  emitted, the count and the block that is open.
\<close>

record compare_state =
  emitted :: "DifferenceBlock list"
  counted :: nat
  currentBlock :: "DifferenceBlock option"

definition newBlock :: "nat \<Rightarrow> nat \<Rightarrow> DifferenceBlock" where
  "newBlock r c =
     \<lparr>startRow = r, startCol = c, endRow = r, endCol = c,
      referenceCells = [], comparatorCells = []\<rparr>"

text \<open>The body of the inner loop, at one cell.\<close>

definition compareCell ::
  "(jsnum \<Rightarrow> string) \<Rightarrow> string list list \<Rightarrow> jsval list list \<Rightarrow> string list list \<Rightarrow>
   jsval list list \<Rightarrow> ComparisonOptions \<Rightarrow> nat \<Rightarrow> nat \<Rightarrow> compare_state \<Rightarrow> compare_state" where
  "compareCell num_str refFormulas refValues compFormulas compValues options r c st =
     (let refFormula = formulaAt refFormulas r c;
          refValue = valueAt refValues r c;
          compFormula = formulaAt compFormulas r c;
          compValue = valueAt compValues r c;
          different =
            (if compareFormulas options
             then areFormulasDifferent refFormula compFormula (ignoreInputs options)
             else areValuesDifferent num_str refValue compValue)
      in if different then
           (let (done, block) =
                  (case currentBlock st of
                     None \<Rightarrow> (emitted st, newBlock r c)
                   | Some b \<Rightarrow>
                       if isAdjacent b r c then (emitted st, b)
                       else (emitted st @ [b], newBlock r c));
                block' = block
                  \<lparr>endRow := max (endRow block) r,
                   endCol := max (endCol block) c,
                   referenceCells := referenceCells block @
                     [\<lparr>address = getAddress0 r c, cell_formula = refFormula,
                       cell_value = refValue, isDifferent = True\<rparr>],
                   comparatorCells := comparatorCells block @
                     [\<lparr>address = getAddress0 r c, cell_formula = compFormula,
                       cell_value = compValue, isDifferent = True\<rparr>]\<rparr>
            in \<lparr>emitted = done, counted = counted st + 1, currentBlock = Some block'\<rparr>)
         else st)"

definition compareRanges ::
  "(jsnum \<Rightarrow> string) \<Rightarrow> string list list \<Rightarrow> jsval list list \<Rightarrow> string list list \<Rightarrow>
   jsval list list \<Rightarrow> ComparisonOptions \<Rightarrow> ComparisonResult" where
  "compareRanges num_str refFormulas refValues compFormulas compValues options =
     (let maxRows = max (length refFormulas) (length compFormulas);
          maxCols = max (firstRowLength refFormulas) (firstRowLength compFormulas);
          st = fold (\<lambda>r. fold (compareCell num_str refFormulas refValues compFormulas
                                  compValues options r) [0..<maxCols])
                 [0..<maxRows]
                 \<lparr>emitted = [], counted = 0, currentBlock = None\<rparr>
      in \<lparr>differences =
            (case currentBlock st of None \<Rightarrow> emitted st | Some b \<Rightarrow> emitted st @ [b]),
          totalDifferences = counted st,
          alignmentNeeded = False,
          insertedRows = [],
          insertedColumns = []\<rparr>)"

text \<open>The blocks of a loop state, the open one last, and what the loops maintain.\<close>

definition blocks_of :: "compare_state \<Rightarrow> DifferenceBlock list" where
  "blocks_of st = (case currentBlock st of None \<Rightarrow> emitted st | Some b \<Rightarrow> emitted st @ [b])"

definition block_ok :: "DifferenceBlock \<Rightarrow> bool" where
  "block_ok b = (map address (referenceCells b) = map address (comparatorCells b))"

definition state_ok :: "compare_state \<Rightarrow> bool" where
  "state_ok st =
     (list_all block_ok (blocks_of st) \<and>
      counted st = sum_list (map (\<lambda>b. length (referenceCells b)) (blocks_of st)))"

section \<open>The formula parser\<close>

datatype node_type = FunctionNode | ReferenceNode | OperatorNode | LiteralNode | ArrayNode

text \<open>
  A \<open>FormulaNode\<close> of the source: its type, its value, the optional children, the
  optional address and the optional \<open>isActive\<close> mark. The fields \<open>calculatedValue\<close> and
  \<open>targetLocation\<close> are written by no function modelled here.
\<close>

datatype FormulaNode =
  FormulaNode (node_type: node_type) (node_value: string)
    (children: "FormulaNode list option") (node_address: "string option")
    (isActive: "bool option")

definition dquote :: char where "dquote = CHR 0x22"
definition squote :: char where "squote = CHR 0x27"
definition backslash :: char where "backslash = CHR 0x5C"

text \<open>\<open>str[i - 1] !== '\\'\<close>: the character before index \<open>i\<close> is not a backslash.\<close>

definition notEscaped :: "string \<Rightarrow> nat \<Rightarrow> bool" where
  "notEscaped str i = (if i = 0 then True else str ! (i - 1) \<noteq> backslash)"

text \<open>The loop of \<open>findMatchingParen\<close>, from index \<open>i\<close> on.\<close>

function findMatchingParen_loop :: "string \<Rightarrow> nat \<Rightarrow> int \<Rightarrow> bool \<Rightarrow> string \<Rightarrow> nat" where
  "findMatchingParen_loop str i depth inString stringChar =
     (if i < length str then
        (let char = str ! i in
         if inString then
           (if [char] = stringChar \<and> notEscaped str i
            then findMatchingParen_loop str (i + 1) depth False stringChar
            else findMatchingParen_loop str (i + 1) depth inString stringChar)
         else if char = dquote \<or> char = squote
           then findMatchingParen_loop str (i + 1) depth True [char]
         else if char = CHR ''(''
           then findMatchingParen_loop str (i + 1) (depth + 1) inString stringChar
         else if char = CHR '')''
           then (if depth - 1 = 0 then i
                 else findMatchingParen_loop str (i + 1) (depth - 1) inString stringChar)
         else findMatchingParen_loop str (i + 1) depth inString stringChar)
      else length str)"
  by pat_completeness auto
termination
  by (relation "measure (\<lambda>(str, i, depth, inString, stringChar). length str - i)") auto

declare findMatchingParen_loop.simps [simp del]

definition findMatchingParen :: "string \<Rightarrow> nat \<Rightarrow> nat" where
  "findMatchingParen str openIndex = findMatchingParen_loop str (openIndex + 1) 1 False []"

text \<open>
  The variables of the loop of \<open>splitArguments\<close>, and the body of the loop at
  index \<open>i\<close>. The loop has no early exit.
\<close>

record split_state =
  sa_args :: "string list"
  sa_currentArg :: string
  sa_depth :: int
  sa_inString :: bool
  sa_stringChar :: string

definition splitArguments_step :: "string \<Rightarrow> nat \<Rightarrow> split_state \<Rightarrow> split_state" where
  "splitArguments_step argsString i st =
     (let char = argsString ! i in
      if sa_inString st then
        (if [char] = sa_stringChar st \<and> notEscaped argsString i
         then st\<lparr>sa_currentArg := sa_currentArg st @ [char], sa_inString := False\<rparr>
         else st\<lparr>sa_currentArg := sa_currentArg st @ [char]\<rparr>)
      else if char = dquote \<or> char = squote
        then st\<lparr>sa_inString := True, sa_stringChar := [char],
                sa_currentArg := sa_currentArg st @ [char]\<rparr>
      else if char = CHR ''('' \<or> char = CHR ''{''
        then st\<lparr>sa_depth := sa_depth st + 1, sa_currentArg := sa_currentArg st @ [char]\<rparr>
      else if char = CHR '')'' \<or> char = CHR ''}''
        then st\<lparr>sa_depth := sa_depth st - 1, sa_currentArg := sa_currentArg st @ [char]\<rparr>
      else if char = CHR '','' \<and> sa_depth st = 0
        then st\<lparr>sa_args := sa_args st @ [trim (sa_currentArg st)], sa_currentArg := []\<rparr>
      else st\<lparr>sa_currentArg := sa_currentArg st @ [char]\<rparr>)"

definition splitArguments :: "string \<Rightarrow> string list" where
  "splitArguments argsString =
     (let st = fold (splitArguments_step argsString) [0..<length argsString]
                 \<lparr>sa_args = [], sa_currentArg = [], sa_depth = 0, sa_inString = False,
                  sa_stringChar = []\<rparr>
      in if trim (sa_currentArg st) \<noteq> [] then sa_args st @ [trim (sa_currentArg st)]
         else sa_args st)"

record OperatorMatch =
  operator :: string
  index :: nat

text \<open>
  The test that the inner loop of \<open>findTopLevelOperator\<close> makes at index \<open>i\<close> once it
  is outside a string and at depth zero: a two-character operator must end at \<open>i\<close>, a
  one-character operator must stand at \<open>i\<close>.
\<close>

definition operatorAt :: "string \<Rightarrow> string \<Rightarrow> nat \<Rightarrow> OperatorMatch option" where
  "operatorAt op expr i =
     (if length op = 2 \<and> i > 0 \<and> substring expr (i - 1) (i + 1) = op
        then Some \<lparr>operator = op, index = i - 1\<rparr>
      else if length op = 1 \<and> [expr ! i] = op
        then Some \<lparr>operator = op, index = i\<rparr>
      else None)"

text \<open>
  The inner loop of \<open>findTopLevelOperator\<close> for one operator, from index \<open>n - 1\<close> down
  to 0. It returns the match, or else the value that \<open>stringChar\<close> has when the loop
  ends: the source resets \<open>depth\<close> and \<open>inString\<close> before the next operator, not
  \<open>stringChar\<close>.
\<close>

fun scanOperator ::
  "string \<Rightarrow> string \<Rightarrow> nat \<Rightarrow> int \<Rightarrow> bool \<Rightarrow> string \<Rightarrow> OperatorMatch + string" where
  "scanOperator op expr 0 depth inString stringChar = Inr stringChar"
| "scanOperator op expr (Suc i) depth inString stringChar =
     (let char = expr ! i in
      if inString then
        (if [char] = stringChar \<and> notEscaped expr i
         then scanOperator op expr i depth False stringChar
         else scanOperator op expr i depth inString stringChar)
      else if char = dquote \<or> char = squote
        then scanOperator op expr i depth True [char]
      else if char = CHR '')''
        then scanOperator op expr i (depth + 1) inString stringChar
      else if char = CHR ''(''
        then scanOperator op expr i (depth - 1) inString stringChar
      else if depth = 0 then
        (case operatorAt op expr i of
           Some m \<Rightarrow> Inl m
         | None \<Rightarrow> scanOperator op expr i depth inString stringChar)
      else scanOperator op expr i depth inString stringChar)"

definition precedenceOrder :: "string list" where
  "precedenceOrder =
     [''='', ''<>'', ''<='', ''>='', ''<'', ''>'', ''&'', ''+'', ''-'', ''*'', ''/'', ''^'']"

text \<open>The outer loop, over the operators that remain to be tried.\<close>

fun findOperatorIn :: "string list \<Rightarrow> string \<Rightarrow> string \<Rightarrow> OperatorMatch option" where
  "findOperatorIn [] expr stringChar = None"
| "findOperatorIn (op # ops) expr stringChar =
     (case scanOperator op expr (length expr) 0 False stringChar of
        Inl m \<Rightarrow> Some m
      | Inr stringChar' \<Rightarrow> findOperatorIn ops expr stringChar')"

definition findTopLevelOperator :: "string \<Rightarrow> OperatorMatch option" where
  "findTopLevelOperator expr = findOperatorIn precedenceOrder expr []"

text \<open>
  The pattern of \<open>isCellReference\<close>:
  \<open>/^(\[.*?\])?(\w+!)?(\$?[A-Z]+\$?\d+|\$?[A-Z]+:\$?[A-Z]+|\$?\d+:\$?\d+|\$?[A-Z]+\$?\d+:\$?[A-Z]+\$?\d+)$/i\<close>.
\<close>

definition cellRefPattern :: rx where
  "cellRefPattern =
     Seqs [Bol,
           Opt (Grp 1 (Seqs [Lit CHR ''['', Lazy0 is_dot, Lit CHR '']''])),
           Opt (Grp 2 (Seqs [Many1 is_word, Lit CHR ''!''])),
           Grp 3
             (Alt cellPattern
             (Alt (Seqs [Opt (Lit CHR ''$''), Many1 is_letter, Lit CHR '':'',
                         Opt (Lit CHR ''$''), Many1 is_letter])
             (Alt (Seqs [Opt (Lit CHR ''$''), Many1 is_digit, Lit CHR '':'',
                         Opt (Lit CHR ''$''), Many1 is_digit])
                  (Seqs [cellPattern, Lit CHR '':'', cellPattern])))),
           Eol]"

definition isCellReference :: "string \<Rightarrow> bool" where
  "isCellReference expr = rx_test cellRefPattern (trim expr)"

text \<open>
  \<open>!isNaN(Number(s))\<close>. The builtin \<open>Number\<close> gives a number for the empty text and for
  the numeric literals of the language's grammar of numeric strings, here a pattern: a
  signed decimal literal with an optional fraction and exponent, \<open>Infinity\<close> with an
  optional sign, or an unsigned hexadecimal, octal or binary integer literal.
\<close>

definition is_sign :: "char \<Rightarrow> bool" where
  "is_sign c = (c = CHR ''+'' \<or> c = CHR ''-'')"

definition is_hex :: "char \<Rightarrow> bool" where
  "is_hex c = (is_digit c \<or> c \<in> set ''abcdefABCDEF'')"

definition exponentPattern :: rx where
  "exponentPattern = Seqs [One (\<lambda>c. c = CHR ''e'' \<or> c = CHR ''E''), Opt (One is_sign), Many1 is_digit]"

definition numericPattern :: rx where
  "numericPattern =
     Seqs [Bol,
           Alt (Seqs [Opt (One is_sign),
                      Alt (Chars ''Infinity'')
                     (Alt (Seqs [Many1 is_digit, Lit CHR ''.'', Many0 is_digit, Opt exponentPattern])
                     (Alt (Seqs [Lit CHR ''.'', Many1 is_digit, Opt exponentPattern])
                          (Seqs [Many1 is_digit, Opt exponentPattern])))])
          (Alt (Seqs [Lit CHR ''0'', One (\<lambda>c. c = CHR ''x'' \<or> c = CHR ''X''), Many1 is_hex])
          (Alt (Seqs [Lit CHR ''0'', One (\<lambda>c. c = CHR ''o'' \<or> c = CHR ''O''),
                      Many1 (\<lambda>c. c \<in> set ''01234567'')])
               (Seqs [Lit CHR ''0'', One (\<lambda>c. c = CHR ''b'' \<or> c = CHR ''B''),
                      Many1 (\<lambda>c. c \<in> set ''01'')]))),
           Eol]"

definition isNumeric :: "string \<Rightarrow> bool" where
  "isNumeric s = (if trim s = [] then True else rx_test numericPattern (trim s))"

definition isLiteral :: "string \<Rightarrow> bool" where
  "isLiteral expr0 =
     (let expr = trim expr0 in
      if isNumeric expr then True
      else if (startsWith expr [dquote] \<and> endsWith expr [dquote]) \<or>
              (startsWith expr [squote] \<and> endsWith expr [squote]) then True
      else if toUpperCase expr = ''TRUE'' \<or> toUpperCase expr = ''FALSE'' then True
      else False)"

text \<open>The pattern \<open>/^([A-Z_][A-Z0-9_.]*)\s*\(/i\<close> of a function call's head.\<close>

definition funcPattern :: rx where
  "funcPattern =
     Seqs [Bol,
           Grp 1 (Seqs [One (\<lambda>c. is_letter c \<or> c = CHR ''_''),
                        Many0 (\<lambda>c. is_letter c \<or> is_digit c \<or> c = CHR ''_'' \<or> c = CHR ''.'')]),
           Many0 is_space,
           Lit CHR ''('']"

definition funcMatch :: "string \<Rightarrow> (nat \<times> string \<times> caps) option" where
  "funcMatch expr = rx_exec funcPattern 0 expr"

text \<open>
  What the termination of the parser rests on: a match is at least as long as the
  shortest text its pattern admits, and the helper functions return indices inside the
  text and arguments no longer than the text.
\<close>

fun min_len :: "rx \<Rightarrow> nat" where
  "min_len Eps = 0"
| "min_len (One p) = 1"
| "min_len (Many0 p) = 0"
| "min_len (Many1 p) = 1"
| "min_len (Lazy0 p) = 0"
| "min_len (Opt r) = 0"
| "min_len (Seq r1 r2) = min_len r1 + min_len r2"
| "min_len (Alt r1 r2) = min (min_len r1) (min_len r2)"
| "min_len (Grp n r) = min_len r"
| "min_len Bol = 0"
| "min_len Eol = 0"

lemma rmatch_bounds:
  "(j, s', c') \<in> set (rmatch r (i, s, c)) \<Longrightarrow>
     i + min_len r \<le> j \<and> j \<le> i + length s \<and> s' = drop (j - i) s"
proof (induction r arbitrary: i s c j s' c')
  case Eps
  then show ?case by simp
next
  case (One p)
  then show ?case by (auto split: list.splits if_splits)
next
  case (Many0 p)
  then show ?case using length_takeWhile_le[of p s] by auto
next
  case (Many1 p)
  then show ?case using length_takeWhile_le[of p s] by auto
next
  case (Lazy0 p)
  then show ?case using length_takeWhile_le[of p s] by auto
next
  case (Opt r)
  then show ?case by fastforce
next
  case (Seq r1 r2)
  from Seq.prems obtain j1 s1 c1 where
    a: "(j1, s1, c1) \<in> set (rmatch r1 (i, s, c))" and
    b: "(j, s', c') \<in> set (rmatch r2 (j1, s1, c1))"
    by auto
  from Seq.IH(1)[OF a] have a': "i + min_len r1 \<le> j1" "j1 \<le> i + length s" "s1 = drop (j1 - i) s"
    by auto
  from Seq.IH(2)[OF b] have b': "j1 + min_len r2 \<le> j" "j \<le> j1 + length s1" "s' = drop (j - j1) s1"
    by auto
  from a' b' have "s' = drop (j - i) s" by simp
  moreover from a' b' have "j \<le> i + length s" by simp
  moreover from a' b' have "i + min_len (Seq r1 r2) \<le> j" by simp
  ultimately show ?case by blast
next
  case (Alt r1 r2)
  then show ?case by fastforce
next
  case (Grp n r)
  then show ?case by fastforce
next
  case Bol
  then show ?case by (auto split: if_splits)
next
  case Eol
  then show ?case by (auto split: if_splits)
qed

lemma rx_exec_length:
  "rx_exec r i s = Some (st, text, c) \<Longrightarrow> min_len r \<le> length text \<and> length text \<le> length s"
proof (induction s arbitrary: i)
  case Nil
  then obtain j s' where m: "(j, s', c) \<in> set (rmatch r (i, [], []))" and t: "text = []"
    by (auto simp: rx_exec.simps split: list.splits)
  from rmatch_bounds[OF m] t show ?case by simp
next
  case (Cons x xs)
  show ?case
  proof (cases "rmatch r (i, x # xs, [])")
    case Nil
    with Cons.prems have "rx_exec r (Suc i) xs = Some (st, text, c)"
      by (simp add: rx_exec.simps)
    from Cons.IH[OF this] show ?thesis by simp
  next
    case (Cons m ms)
    obtain j s' c' where mm: "m = (j, s', c')" by (cases m)
    with Cons Cons.prems have t: "text = take (j - i) (x # xs)"
      by (auto simp: rx_exec.simps)
    have "(j, s', c') \<in> set (rmatch r (i, x # xs, []))" using Cons mm by simp
    from rmatch_bounds[OF this] t show ?thesis by auto
  qed
qed

lemma length_trim: "length (trim s) \<le> length s"
proof -
  have "length (trim s) \<le> length (dropWhile is_space s)"
    unfolding trim_def using length_dropWhile_le[of is_space "rev (dropWhile is_space s)"] by simp
  also have "\<dots> \<le> length s" by (rule length_dropWhile_le)
  finally show ?thesis .
qed

lemma funcMatch_length:
  "funcMatch expr = Some (st, text, c) \<Longrightarrow> 2 \<le> length text \<and> length text \<le> length expr"
  unfolding funcMatch_def
  by (drule rx_exec_length) (simp add: funcPattern_def Seqs_def Lit_def)

lemma findMatchingParen_loop_bounds_aux:
  "length str - i = k \<Longrightarrow> i \<le> length str \<Longrightarrow>
     i \<le> findMatchingParen_loop str i depth inString stringChar \<and>
     findMatchingParen_loop str i depth inString stringChar \<le> length str"
proof (induction k arbitrary: i depth inString stringChar)
  case 0
  then show ?case by (subst (1 2) findMatchingParen_loop.simps) simp
next
  case (Suc k)
  then have lt: "i < length str" by simp
  have ih1: "\<And>d b sc. i \<le> findMatchingParen_loop str (Suc i) d b sc"
    using Suc.IH[of "Suc i"] Suc.prems by (simp add: Suc_leD)
  have ih2: "\<And>d b sc. findMatchingParen_loop str (Suc i) d b sc \<le> length str"
    using Suc.IH[of "Suc i"] Suc.prems by simp
  show ?case
    by (subst (1 2) findMatchingParen_loop.simps) (simp add: Let_def lt ih1 ih2 less_imp_le)
qed

lemma findMatchingParen_bounds:
  "openIndex < length str \<Longrightarrow>
     openIndex + 1 \<le> findMatchingParen str openIndex \<and> findMatchingParen str openIndex \<le> length str"
  unfolding findMatchingParen_def
  using findMatchingParen_loop_bounds_aux[of str "openIndex + 1" _ 1 False "[]", OF refl] by simp

definition args_bounded :: "nat \<Rightarrow> split_state \<Rightarrow> bool" where
  "args_bounded n st = ((\<forall>a\<in>set (sa_args st). length a \<le> n) \<and> length (sa_currentArg st) \<le> n)"

lemma splitArguments_step_cases:
  "(sa_args (splitArguments_step s i st) = sa_args st \<and>
    sa_currentArg (splitArguments_step s i st) = sa_currentArg st @ [s ! i]) \<or>
   (sa_args (splitArguments_step s i st) = sa_args st @ [trim (sa_currentArg st)] \<and>
    sa_currentArg (splitArguments_step s i st) = [])"
  unfolding splitArguments_step_def Let_def by simp

lemma splitArguments_step_bounded:
  assumes "args_bounded n st"
  shows "args_bounded (Suc n) (splitArguments_step s i st)"
proof -
  have t: "length (trim (sa_currentArg st)) \<le> Suc n"
    using length_trim[of "sa_currentArg st"] assms by (simp add: args_bounded_def)
  have a: "\<forall>a\<in>set (sa_args st). length a \<le> Suc n"
    using assms by (auto simp: args_bounded_def intro: le_SucI)
  have c: "length (sa_currentArg st @ [s ! i]) \<le> Suc n"
    using assms by (simp add: args_bounded_def)
  from splitArguments_step_cases[of s i st] show ?thesis
  proof
    assume "sa_args (splitArguments_step s i st) = sa_args st \<and>
      sa_currentArg (splitArguments_step s i st) = sa_currentArg st @ [s ! i]"
    with a c show ?thesis unfolding args_bounded_def by simp
  next
    assume "sa_args (splitArguments_step s i st) = sa_args st @ [trim (sa_currentArg st)] \<and>
      sa_currentArg (splitArguments_step s i st) = []"
    with a t show ?thesis unfolding args_bounded_def by simp
  qed
qed

lemma fold_upt_inv:
  assumes "P 0 st" and "\<And>i st. i < n \<Longrightarrow> P i st \<Longrightarrow> P (Suc i) (f i st)"
  shows "P n (fold f [0..<n] st)"
  using assms(2)
proof (induction n)
  case 0
  show ?case using assms(1) by simp
next
  case (Suc n)
  have "P n (fold f [0..<n] st)" using Suc by simp
  then show ?case using Suc.prems[of n] by simp
qed

lemma splitArguments_length:
  assumes "a \<in> set (splitArguments s)"
  shows "length a \<le> length s"
proof -
  let ?st = "fold (splitArguments_step s) [0..<length s]
     \<lparr>sa_args = [], sa_currentArg = [], sa_depth = 0, sa_inString = False, sa_stringChar = []\<rparr>"
  have b: "args_bounded (length s) ?st"
    by (rule fold_upt_inv) (simp_all add: args_bounded_def[of 0] splitArguments_step_bounded)
  then have "length (trim (sa_currentArg ?st)) \<le> length s"
    using length_trim[of "sa_currentArg ?st"] by (simp add: args_bounded_def)
  with assms b show ?thesis
    by (auto simp: splitArguments_def Let_def args_bounded_def split: if_splits)
qed

lemma operatorAt_found:
  "operatorAt op expr i = Some m \<Longrightarrow>
     operator m = op \<and> index m \<le> i \<and> index m = i + 1 - length op \<and>
     (length op = 1 \<or> length op = 2)"
  by (auto simp: operatorAt_def split: if_splits)

lemma scanOperator_found:
  "scanOperator op expr n d b sc = Inl m \<Longrightarrow> index m < n \<and> operator m = op"
proof (induction n arbitrary: d b sc)
  case 0
  then show ?case by simp
next
  case (Suc n)
  have ih: "\<And>d b sc. scanOperator op expr n d b sc = Inl m \<Longrightarrow> index m < Suc n \<and> operator m = op"
    using Suc.IH by (simp add: less_Suc_eq)
  have at: "operatorAt op expr n = Some m \<Longrightarrow> index m < Suc n \<and> operator m = op"
    using operatorAt_found[of op expr n m] by simp
  from Suc.prems show ?case
    by (auto simp: Let_def split: if_splits option.splits dest: ih at)
qed

lemma findOperatorIn_found:
  "findOperatorIn ops expr sc = Some m \<Longrightarrow> index m < length expr \<and> operator m \<in> set ops"
proof (induction ops arbitrary: sc)
  case Nil
  then show ?case by simp
next
  case (Cons op ops)
  then show ?case
    by (auto split: sum.splits dest: scanOperator_found)
qed

lemma findTopLevelOperator_found:
  "findTopLevelOperator expr = Some m \<Longrightarrow> index m < length expr \<and> 1 \<le> length (operator m)"
  unfolding findTopLevelOperator_def
  by (drule findOperatorIn_found) (auto simp: precedenceOrder_def)

lemma length_substring: "length (substring s a b) \<le> length s - min a b"
  by (auto simp: substring_def Let_def min_def max_def)

text \<open>
  \<open>args.map(arg => this.parseExpression(arg))\<close> stops at the first argument that throws.
\<close>

fun sequence_sum :: "('e + 'a) list \<Rightarrow> 'e + 'a list" where
  "sequence_sum [] = Inr []"
| "sequence_sum (x # xs) =
     (case x of
        Inl e \<Rightarrow> Inl e
      | Inr v \<Rightarrow> (case sequence_sum xs of Inl e \<Rightarrow> Inl e | Inr vs \<Rightarrow> Inr (v # vs)))"

function parseExpression :: "string \<Rightarrow> error + FormulaNode"
     and parseFunction :: "string \<Rightarrow> error + FormulaNode" where
  "parseExpression expr0 =
     (let expr = trim expr0 in
      if funcMatch expr \<noteq> None then parseFunction expr
      else if isCellReference expr then Inr (FormulaNode ReferenceNode expr None (Some expr) None)
      else if isLiteral expr then Inr (FormulaNode LiteralNode expr None None None)
      else
        (case findTopLevelOperator expr of
           Some m \<Rightarrow>
             (case parseExpression (substring expr 0 (index m)) of
                Inl e \<Rightarrow> Inl e
              | Inr left \<Rightarrow>
                  (case parseExpression (drop (index m + length (operator m)) expr) of
                     Inl e \<Rightarrow> Inl e
                   | Inr right \<Rightarrow>
                       Inr (FormulaNode OperatorNode (operator m) (Some [left, right]) None None)))
         | None \<Rightarrow> Inr (FormulaNode LiteralNode expr None None None)))"
| "parseFunction expr =
     (case funcMatch expr of
        None \<Rightarrow> Inl InvalidFunctionExpression
      | Some (start, text, c) \<Rightarrow>
          (let funcName = toUpperCase (the (group c 1));
               argsStart = length text;
               argsEnd = findMatchingParen expr (argsStart - 1);
               argsString = substring expr argsStart argsEnd;
               args = splitArguments argsString
           in case sequence_sum (map parseExpression args) of
                Inl e \<Rightarrow> Inl e
              | Inr nodes \<Rightarrow> Inr (FormulaNode FunctionNode funcName (Some nodes) None None)))"
  by pat_completeness auto
termination
proof (relation "measure (case_sum (\<lambda>e. 2 * length e + 1) (\<lambda>e. 2 * length e))", goal_cases)
  case 1
  show ?case by simp
next
  case (2 expr0 x)
  then show ?case using length_trim[of expr0] by simp
next
  case (3 expr0 x m)
  then show ?case
    using length_trim[of expr0] findTopLevelOperator_found[of "trim expr0" m]
          length_substring[of "trim expr0" 0 "index m"]
    by (simp add: substring_def Let_def)
next
  case (4 expr0 x m left)
  then show ?case
    using length_trim[of expr0] findTopLevelOperator_found[of "trim expr0" m]
    by (simp, arith)
next
  case (5 expr m0 st rest mt c fname astart aend astr arglist a)
  then have fm: "funcMatch expr = Some (st, mt, c)" by simp
  from funcMatch_length[OF fm] have l: "2 \<le> length mt" "length mt \<le> length expr" by simp_all
  then have "length mt - 1 < length expr" by simp
  from findMatchingParen_bounds[OF this] l
  have e: "length mt \<le> findMatchingParen expr (length mt - 1)" by arith
  have "length a \<le> length (substring expr (length mt) (findMatchingParen expr (length mt - 1)))"
    using 5 by (intro splitArguments_length) simp
  also have "\<dots> \<le> length expr - min (length mt) (findMatchingParen expr (length mt - 1))"
    by (rule length_substring)
  also have "\<dots> = length expr - length mt" using e by (simp add: min_def)
  finally show ?case using l by simp
qed

declare parseExpression.simps [simp del] parseFunction.simps [simp del]

definition parse :: "string \<Rightarrow> error + FormulaNode" where
  "parse formula =
     (if formula = [] then Inr (FormulaNode LiteralNode formula None None None)
      else if startsWith formula ''='' then parseExpression (drop 1 formula)
      else Inr (FormulaNode LiteralNode formula None None None))"

text \<open>
  The case \<open>'SWITCH'\<close> of \<open>evaluateLogicalBranch\<close>. The function marks children of the
  node in place; the model returns the node with the marks. A write to a child that does
  not exist throws.
\<close>

definition setActive :: "FormulaNode \<Rightarrow> bool \<Rightarrow> FormulaNode" where
  "setActive n b =
     FormulaNode (node_type n) (node_value n) (children n) (node_address n) (Some b)"

definition markChild :: "FormulaNode list \<Rightarrow> nat \<Rightarrow> error + FormulaNode list" where
  "markChild nodes i =
     (if i < length nodes then Inr (nodes[i := setActive (nodes ! i) True]) else Inl TypeError)"

text \<open>The loop \<open>for (let i = 1; i < args.length - 1; i += 2)\<close>, from \<open>i\<close> on.\<close>

function switch_loop :: "jsval list \<Rightarrow> nat \<Rightarrow> FormulaNode list \<Rightarrow> error + FormulaNode list" where
  "switch_loop args i nodes =
     (if int i < int (length args) - 1 then
        (if strict_eq (args ! i) (args ! 0) then
           (case markChild nodes i of
              Inl e \<Rightarrow> Inl e
            | Inr nodes' \<Rightarrow> markChild nodes' (i + 1))
         else switch_loop args (i + 2) nodes)
      else Inr nodes)"
  by pat_completeness auto
termination
  by (relation "measure (\<lambda>(args, i, nodes). length args - i)") auto

declare switch_loop.simps [simp del]

definition evaluateLogicalBranch_SWITCH :: "jsval list \<Rightarrow> FormulaNode \<Rightarrow> error + FormulaNode" where
  "evaluateLogicalBranch_SWITCH args node =
     (case children node of
        None \<Rightarrow> Inr node
      | Some nodes \<Rightarrow>
          if length args \<ge> 3 then
            (case switch_loop args 1 nodes of
               Inl e \<Rightarrow> Inl e
             | Inr nodes' \<Rightarrow>
                 if length args mod 2 = 0 \<and> nodes' \<noteq> [] then
                   (case markChild nodes' (length nodes' - 1) of
                      Inl e \<Rightarrow> Inl e
                    | Inr nodes'' \<Rightarrow>
                        Inr (FormulaNode (node_type node) (node_value node) (Some nodes'')
                               (node_address node) (isActive node)))
                 else Inr (FormulaNode (node_type node) (node_value node) (Some nodes')
                             (node_address node) (isActive node)))
          else Inr node)"

text \<open>
  The top level of an expression, as the right-to-left scan of \<open>findTopLevelOperator\<close>
  judges it: the indices, from the right, of the characters that the scan meets outside a
  quoted string and at parenthesis depth zero and that are neither a quote nor a
  parenthesis. These are the indices at which the scan compares the text with an
  operator; \<open>matchesAt\<close> is that comparison, for an operator that ends at index \<open>i\<close>.
\<close>

fun topLevelFrom :: "string \<Rightarrow> nat \<Rightarrow> int \<Rightarrow> bool \<Rightarrow> string \<Rightarrow> nat list" where
  "topLevelFrom expr 0 depth inString stringChar = []"
| "topLevelFrom expr (Suc i) depth inString stringChar =
     (let char = expr ! i in
      if inString then
        (if [char] = stringChar \<and> notEscaped expr i
         then topLevelFrom expr i depth False stringChar
         else topLevelFrom expr i depth inString stringChar)
      else if char = dquote \<or> char = squote
        then topLevelFrom expr i depth True [char]
      else if char = CHR '')''
        then topLevelFrom expr i (depth + 1) inString stringChar
      else if char = CHR ''(''
        then topLevelFrom expr i (depth - 1) inString stringChar
      else if depth = 0 then i # topLevelFrom expr i depth inString stringChar
      else topLevelFrom expr i depth inString stringChar)"

definition topLevelIndices :: "string \<Rightarrow> nat list" where
  "topLevelIndices expr = topLevelFrom expr (length expr) 0 False []"

definition matchesAt :: "string \<Rightarrow> string \<Rightarrow> nat \<Rightarrow> bool" where
  "matchesAt op expr i = (operatorAt op expr i \<noteq> None)"

text \<open>
  The selection as the specification words it: the precedence tiers, lowest first; in
  the first tier with a top-level occurrence, the rightmost top-level occurrence of any
  operator of the tier (at one index, a two-character operator before a one-character
  one).
\<close>

definition precedenceTiers :: "string list list" where
  "precedenceTiers =
     [[''='', ''<>'', ''<='', ''>='', ''<'', ''>''], [''&''], [''+'', ''-''], [''*'', ''/''], [''^'']]"

fun spec_tierChoice :: "string list \<Rightarrow> string \<Rightarrow> nat list \<Rightarrow> OperatorMatch option" where
  "spec_tierChoice tier expr [] = None"
| "spec_tierChoice tier expr (i # rest) =
     (case filter (\<lambda>op. length op = 2 \<and> matchesAt op expr i) tier @
           filter (\<lambda>op. length op = 1 \<and> matchesAt op expr i) tier of
        op # _ \<Rightarrow> Some \<lparr>operator = op, index = i + 1 - length op\<rparr>
      | [] \<Rightarrow> spec_tierChoice tier expr rest)"

fun spec_operatorChoice :: "string list list \<Rightarrow> string \<Rightarrow> OperatorMatch option" where
  "spec_operatorChoice [] expr = None"
| "spec_operatorChoice (tier # tiers) expr =
     (case spec_tierChoice tier expr (topLevelIndices expr) of
        Some m \<Rightarrow> Some m
      | None \<Rightarrow> spec_operatorChoice tiers expr)"

text \<open>
  One step of the right-to-left scan on its variables, apart from the operator test: the
  new depth, string flag and string character, and whether the index is at top level.
  The scan functions above are this step repeated (\<open>scanOperator_step\<close>,
  \<open>topLevelFrom_step\<close>).
\<close>

definition scanStep :: "string \<Rightarrow> nat \<Rightarrow> int \<Rightarrow> bool \<Rightarrow> string \<Rightarrow> (int \<times> bool \<times> string) \<times> bool" where
  "scanStep expr i depth inString stringChar =
     (let char = expr ! i in
      if inString then
        (if [char] = stringChar \<and> notEscaped expr i
         then ((depth, False, stringChar), False)
         else ((depth, inString, stringChar), False))
      else if char = dquote \<or> char = squote
        then ((depth, True, [char]), False)
      else if char = CHR '')''
        then ((depth + 1, inString, stringChar), False)
      else if char = CHR ''(''
        then ((depth - 1, inString, stringChar), False)
      else if depth = 0 then ((depth, inString, stringChar), True)
      else ((depth, inString, stringChar), False))"

section \<open>The dependency graph\<close>

text \<open>
  An entry of the graph, and the graph: the \<open>Map\<close> of the source, a list of keys with
  their entries in insertion order. \<open>map_set\<close> replaces the entry of a key that is
  present, in place, and appends a key that is not.
\<close>

record DepEntry =
  precedents :: "string list"
  dependents :: "string list"
  formula :: string

type_synonym DepMap = "(string \<times> DepEntry) list"

definition map_get :: "DepMap \<Rightarrow> string \<Rightarrow> DepEntry option" where
  "map_get m k = map_of m k"

fun map_set :: "DepMap \<Rightarrow> string \<Rightarrow> DepEntry \<Rightarrow> DepMap" where
  "map_set [] k v = [(k, v)]"
| "map_set ((k', v') # m) k v = (if k' = k then (k, v) # m else (k', v') # map_set m k v)"

text \<open>\<open>s.replace('!', '')\<close>: the first occurrence of the character is removed.\<close>

fun remove_first :: "char \<Rightarrow> string \<Rightarrow> string" where
  "remove_first c [] = []"
| "remove_first c (x # xs) = (if x = c then xs else x # remove_first c xs)"

text \<open>
  \<open>extractPrecedents\<close>: one key for every match of the reference pattern, made of the
  sheet (group 2 without its \<open>!\<close>, or the current sheet), a \<open>!\<close> and group 3 as the
  formula has it.
\<close>

definition precedentKey :: "string \<Rightarrow> caps \<Rightarrow> string" where
  "precedentKey currentSheet c =
     (let sheet = (case group c 2 of
                     None \<Rightarrow> currentSheet
                   | Some g \<Rightarrow> if g = [] then currentSheet else remove_first CHR ''!'' g);
          ref = the (group c 3)
      in sheet @ ''!'' @ ref)"

definition extractPrecedents :: "string \<Rightarrow> string \<Rightarrow> string list" where
  "extractPrecedents formulaText currentSheet =
     concat (map (\<lambda>seg. case seg of Inl x \<Rightarrow> [] | Inr (text, c) \<Rightarrow> [precedentKey currentSheet c])
                 (rx_segments refPattern 0 formulaText))"

text \<open>
  The host application, as far as \<open>buildDependencyGraph\<close> asks it: the names of the
  worksheets, and for a sheet the range at an address or the used range, each loaded
  with its formulas, its address and its counts of rows and columns. \<open>None\<close> is a
  request that the host rejects (at \<open>context.sync()\<close>).
\<close>

record RangeData =
  formulas :: "string list list"
  range_address :: string
  rowCount :: nat
  columnCount :: nat

record Host =
  worksheetNames :: "string list"
  getRange :: "string \<Rightarrow> string \<Rightarrow> RangeData option"
  getUsedRange :: "string \<Rightarrow> RangeData option"

datatype scope_kind = ScopeWorkbook | ScopeWorksheet | ScopeRange

record FocusArea =
  focus_sheetName :: "string option"
  focus_rangeAddress :: "string option"

record AnalysisScope =
  scope_type :: scope_kind
  sheetName :: "string option"
  rangeAddress :: "string option"
  focusArea :: "FocusArea option"

text \<open>A loop whose body may throw: the first error ends it.\<close>

fun fold_sum :: "('a \<Rightarrow> 's \<Rightarrow> 'e + 's) \<Rightarrow> 'a list \<Rightarrow> 's \<Rightarrow> 'e + 's" where
  "fold_sum f [] s = Inr s"
| "fold_sum f (x # xs) s = (case f x s of Inl e \<Rightarrow> Inl e | Inr s' \<Rightarrow> fold_sum f xs s')"

text \<open>The body of the two loops over the rows and columns of one sheet's range.\<close>

definition scanCell ::
  "string \<Rightarrow> Coords \<Rightarrow> string list list \<Rightarrow> nat \<Rightarrow> nat \<Rightarrow> DepMap \<Rightarrow> error + DepMap" where
  "scanCell sheet baseCoords grid r c deps =
     (case nth_opt grid r of
        None \<Rightarrow> Inl TypeError
      | Some line \<Rightarrow>
          (case nth_opt line c of
             None \<Rightarrow> Inr deps
           | Some formulaText \<Rightarrow>
               if formulaText = [] then Inr deps
               else if startsWith formulaText ''='' then
                 (let cellAddress = getAddress (row baseCoords + r) (col baseCoords + c);
                      fullAddress = sheet @ ''!'' @ cellAddress;
                      precs = extractPrecedents formulaText sheet
                  in Inr (map_set deps fullAddress
                            \<lparr>precedents = precs, dependents = [], formula = formulaText\<rparr>))
               else Inr deps))"

definition scanSheet :: "Host \<Rightarrow> AnalysisScope \<Rightarrow> string \<Rightarrow> DepMap \<Rightarrow> error + DepMap" where
  "scanSheet host scope sheet deps =
     (case (if scope_type scope = ScopeRange \<and> rangeAddress scope \<noteq> None \<and>
               rangeAddress scope \<noteq> Some []
            then getRange host sheet (the (rangeAddress scope))
            else getUsedRange host sheet) of
        None \<Rightarrow> Inl HostError
      | Some rng \<Rightarrow>
          (case nth_opt (js_split CHR ''!'' (range_address rng)) 1 of
             None \<Rightarrow> Inl TypeError
           | Some local \<Rightarrow>
               (case addressToCoords (hd (js_split CHR '':'' local)) of
                  Inl e \<Rightarrow> Inl e
                | Inr baseCoords \<Rightarrow>
                    fold_sum (\<lambda>r. fold_sum (scanCell sheet baseCoords (formulas rng) r)
                                     [0..<columnCount rng])
                      [0..<rowCount rng] deps)))"

text \<open>
  The first part of \<open>buildDependencyGraph\<close>: the entries of the formula cells of the
  scope. A scope of one sheet without a sheet name asks the host for a worksheet that
  has no name, which the host rejects.
\<close>

definition scanFormulas :: "Host \<Rightarrow> AnalysisScope \<Rightarrow> error + DepMap" where
  "scanFormulas host scope =
     (if scope_type scope = ScopeWorkbook
      then fold_sum (scanSheet host scope) (worksheetNames host) []
      else (case sheetName scope of
              None \<Rightarrow> Inl HostError
            | Some sheet \<Rightarrow> fold_sum (scanSheet host scope) [sheet] []))"

text \<open>
  The second part: the reverse edges. The inner loop goes through the precedents of one
  entry; the outer loop goes through the entries of the map while the map grows, as the
  iteration of a \<open>Map\<close> does, here by index.
\<close>

fun addDependents :: "string \<Rightarrow> string list \<Rightarrow> DepMap \<Rightarrow> DepMap" where
  "addDependents addr [] deps = deps"
| "addDependents addr (p # ps) deps =
     addDependents addr ps
       (case map_get deps p of
          Some info \<Rightarrow> map_set deps p (info\<lparr>dependents := dependents info @ [addr]\<rparr>)
        | None \<Rightarrow> map_set deps p \<lparr>precedents = [], dependents = [addr], formula = []\<rparr>)"

text \<open>
  What the termination of the outer loop rests on: the inner loop leaves the lists of
  precedents of the entries as they are and in place, and appends entries without
  precedents, at most one for each precedent it goes through.
\<close>

definition shape :: "DepMap \<Rightarrow> string list list" where
  "shape m = map (\<lambda>(k, e). precedents e) m"

lemma map_set_present:
  "map_get m k = Some e \<Longrightarrow> precedents e' = precedents e \<Longrightarrow> shape (map_set m k e') = shape m"
  by (induction m) (auto simp: map_get_def shape_def)

lemma map_set_absent:
  "map_get m k = None \<Longrightarrow> map_set m k e = m @ [(k, e)]"
  by (induction m) (auto simp: map_get_def split: if_splits)

lemma addDependents_shape:
  "\<exists>n\<le>length ps. shape (addDependents a ps m) = shape m @ replicate n []"
proof (induction ps arbitrary: m)
  case Nil
  show ?case by simp
next
  case (Cons p ps)
  show ?case
  proof (cases "map_get m p")
    case None
    let ?m' = "m @ [(p, \<lparr>precedents = [], dependents = [a], formula = []\<rparr>)]"
    from Cons[of ?m'] obtain n where n: "n \<le> length ps"
      "shape (addDependents a ps ?m') = shape ?m' @ replicate n []" by blast
    have "shape ?m' = shape m @ replicate 1 []" by (simp add: shape_def)
    with n have "shape (addDependents a (p # ps) m) = shape m @ replicate (Suc n) []"
      by (simp add: None map_set_absent[OF None] replicate_app_Cons_same)
    with n(1) show ?thesis by (metis Suc_le_mono length_Cons)
  next
    case (Some info)
    let ?m' = "map_set m p (info\<lparr>dependents := dependents info @ [a]\<rparr>)"
    from Cons[of ?m'] obtain n where n: "n \<le> length ps"
      "shape (addDependents a ps ?m') = shape ?m' @ replicate n []" by blast
    have "shape ?m' = shape m" by (rule map_set_present[OF Some]) simp
    with n have "shape (addDependents a (p # ps) m) = shape m @ replicate n []"
      by (simp add: Some)
    with n(1) show ?thesis by (metis le_SucI length_Cons)
  qed
qed

definition entry_weight :: "string list \<Rightarrow> nat" where
  "entry_weight ps = (if ps = [] then 1 else 2 + length ps)"

function addAllDependents :: "nat \<Rightarrow> DepMap \<Rightarrow> DepMap" where
  "addAllDependents i deps =
     (if i < length deps then
        (case deps ! i of
           (addr, info) \<Rightarrow> addAllDependents (i + 1) (addDependents addr (precedents info) deps))
      else deps)"
  by pat_completeness auto
termination
proof (relation "measure (\<lambda>(i, deps). sum_list (map entry_weight (drop i (shape deps))))", goal_cases)
  case 1
  show ?case by simp
next
  case (2 i deps addr info)
  then have il: "i < length deps" and e: "deps ! i = (addr, info)" by simp_all
  from addDependents_shape[of "precedents info" addr deps]
  obtain n where n: "n \<le> length (precedents info)"
    "shape (addDependents addr (precedents info) deps) = shape deps @ replicate n []" by blast
  have si: "shape deps ! i = precedents info" using il e by (simp add: shape_def)
  have ls: "i < length (shape deps)" using il by (simp add: shape_def)
  have d: "drop i (shape deps) = precedents info # drop (Suc i) (shape deps)"
    using Cons_nth_drop_Suc[OF ls] si by simp
  have "sum_list (map entry_weight (drop (Suc i) (shape deps @ replicate n []))) =
        sum_list (map entry_weight (drop (Suc i) (shape deps))) + n"
    using ls by (simp add: entry_weight_def sum_list_replicate)
  moreover have "n < entry_weight (precedents info)"
    using n(1) by (auto simp: entry_weight_def)
  ultimately show ?case using n(2) d by simp
qed

declare addAllDependents.simps [simp del]

definition buildDependencyGraph :: "Host \<Rightarrow> AnalysisScope \<Rightarrow> error + DepMap" where
  "buildDependencyGraph host scope =
     (case scanFormulas host scope of
        Inl e \<Rightarrow> Inl e
      | Inr deps \<Rightarrow> Inr (addAllDependents 0 deps))"

text \<open>
  Notions for the properties of the graph: the keys with their precedents, an entry that
  differs from another by more dependents only, and the entries up to an index whose
  precedents all carry the reverse edge.
\<close>

definition core :: "DepMap \<Rightarrow> (string \<times> string list) list" where
  "core m = map (\<lambda>(k, e). (k, precedents e)) m"

definition extends :: "DepEntry \<Rightarrow> DepEntry \<Rightarrow> bool" where
  "extends e e' = (precedents e' = precedents e \<and> formula e' = formula e \<and>
                   set (dependents e) \<subseteq> set (dependents e'))"

definition linked :: "DepMap \<Rightarrow> string \<Rightarrow> string list \<Rightarrow> bool" where
  "linked m x ps = (\<forall>y\<in>set ps. \<exists>ey. map_get m y = Some ey \<and> x \<in> set (dependents ey))"

definition linked_upto :: "nat \<Rightarrow> DepMap \<Rightarrow> bool" where
  "linked_upto i m =
     (\<forall>j<i. j < length m \<longrightarrow> linked m (fst (m ! j)) (precedents (snd (m ! j))))"

text \<open>
  An example: the sheet \<open>S\<close> has the used range \<open>A1:B2\<close>, with the constants \<open>10\<close> and
  \<open>x\<close> in column A and the formulas \<open>=$A$1\<close> in \<open>B1\<close> and \<open>=A1\<close> in \<open>B2\<close>.
\<close>

definition exampleHost :: Host where
  "exampleHost =
     \<lparr>worksheetNames = [''S''],
      getRange = (\<lambda>sheet a. None),
      getUsedRange = (\<lambda>sheet.
        if sheet = ''S''
        then Some \<lparr>formulas = [[''10'', ''=$A$1''], [''x'', ''=A1'']],
                   range_address = ''S!A1:B2'', rowCount = 2, columnCount = 2\<rparr>
        else None)\<rparr>"

definition exampleScope :: AnalysisScope where
  "exampleScope =
     \<lparr>scope_type = ScopeWorksheet, sheetName = Some ''S'', rangeAddress = None,
      focusArea = None\<rparr>"

definition exampleGraph :: DepMap where
  "exampleGraph =
     [(''S!B1'', \<lparr>precedents = [''S!$A$1''], dependents = [], formula = ''=$A$1''\<rparr>),
      (''S!B2'', \<lparr>precedents = [''S!A1''], dependents = [], formula = ''=A1''\<rparr>),
      (''S!$A$1'', \<lparr>precedents = [], dependents = [''S!B1''], formula = []\<rparr>),
      (''S!A1'', \<lparr>precedents = [], dependents = [''S!B2''], formula = []\<rparr>)]"

section \<open>The classification of the cells\<close>













text \<open>
  Notions for the properties of the keys. A text is part of another when it occurs in it
  as it is, in one piece. \<open>first_match\<close> is the match that the engine reports at a
  position. A step of the matcher relates a state to a later one: text is consumed from
  the front and every new group is a part of the text. \<open>scannedSheets\<close> are the
  sheets that \<open>scanFormulas\<close> goes through, and \<open>own_key\<close> describes the entry of a
  scanned formula cell.
\<close>

definition part_of :: "string \<Rightarrow> string \<Rightarrow> bool" where
  "part_of g s = list_ex (\<lambda>i. take (length g) (drop i s) = g) [0..<Suc (length s)]"

definition first_match :: "rx \<Rightarrow> mstate \<Rightarrow> mstate option" where
  "first_match r st = (case rmatch r st of [] \<Rightarrow> None | x # _ \<Rightarrow> Some x)"

definition inv_step :: "mstate \<Rightarrow> mstate \<Rightarrow> bool" where
  "inv_step st st' =
     (case (st, st') of
        ((i, s, c), (j, s', c')) \<Rightarrow>
          (\<exists>u. s = u @ s' \<and> j = i + length u) \<and>
          (\<forall>n g. (n, g) \<in> set c' \<longrightarrow> (n, g) \<in> set c \<or> part_of g s))"

definition scannedSheets :: "Host \<Rightarrow> AnalysisScope \<Rightarrow> string set" where
  "scannedSheets host scope =
     (if scope_type scope = ScopeWorkbook then set (worksheetNames host)
      else set_option (sheetName scope))"

definition own_key :: "string set \<Rightarrow> string \<times> DepEntry \<Rightarrow> bool" where
  "own_key sheets ke =
     (\<exists>sh cell. sh \<in> sheets \<and> fst ke = sh @ ''!'' @ cell \<and> CHR ''$'' \<notin> set cell \<and>
                precedents (snd ke) = extractPrecedents (formula (snd ke)) sh)"












section \<open>Properties of the comparison\<close>

lemma fold_same:
  assumes "\<And>x s. f x s = s"
  shows "fold f xs s = s"
  by (induction xs arbitrary: s) (simp_all add: assms)

lemma fold_inv:
  assumes "\<And>x s. P s \<Longrightarrow> P (f x s)" and "P s"
  shows "P (fold f xs s)"
  using assms(2) by (induction xs arbitrary: s) (simp_all add: assms(1))

lemma areValuesDifferent_same: "areValuesDifferent ns v v = False"
  unfolding areValuesDifferent_def
  apply (cases v)
      apply (auto split: jsnum.splits)
  subgoal for x by (cases x; simp)
  done

lemma areFormulasDifferent_same: "areFormulasDifferent f f ig = False"
  by (simp add: areFormulasDifferent_def)

lemma compareCell_same: "compareCell ns f v f v opts r c st = st"
  by (simp add: compareCell_def Let_def areValuesDifferent_same areFormulasDifferent_same)

text \<open>
  Claim C8. A grid (its formulas with its values) compared with itself has a total
  difference count of zero, whatever the options are: in formula mode, with or without
  the normalisation of references, and in value mode.
\<close>

theorem compareRanges_self_no_differences:
  "totalDifferences (compareRanges ns f v f v opts) = 0"
proof -
  have inner: "\<And>r n s. fold (compareCell ns f v f v opts r) [0..<n] s = s"
    by (rule fold_same) (rule compareCell_same)
  have outer:
    "\<And>m n s. fold (\<lambda>r. fold (compareCell ns f v f v opts r) [0..<n]) [0..<m] s = s"
    by (rule fold_same) (rule inner)
  show ?thesis
    unfolding compareRanges_def Let_def by (simp add: outer)
qed

text \<open>
  Claim C9. With the formula \<open>=B1+B2\<close> in the reference grid and \<open>=B1+B3\<close> in the
  comparator grid, formula mode reports no difference when reference-only differences
  are ignored, both formulas being normalised to \<open>=REF+REF\<close>, and reports one
  difference when they are not ignored.
\<close>

theorem compareRanges_reference_only_difference:
  "normalizeFormula ''=B1+B2'' = ''=REF+REF'' \<and>
   normalizeFormula ''=B1+B3'' = ''=REF+REF'' \<and>
   areFormulasDifferent ''=B1+B2'' ''=B1+B3'' True = False \<and>
   areFormulasDifferent ''=B1+B2'' ''=B1+B3'' False = True \<and>
   totalDifferences (compareRanges ns [[''=B1+B2'']] [[v]] [[''=B1+B3'']] [[w]]
     \<lparr>compareFormulas = True, ignoreInputs = True, detectAlignment = d\<rparr>) = 0 \<and>
   totalDifferences (compareRanges ns [[''=B1+B2'']] [[v]] [[''=B1+B3'']] [[w]]
     \<lparr>compareFormulas = True, ignoreInputs = False, detectAlignment = d\<rparr>) = 1"
proof -
  have n2: "normalizeFormula ''=B1+B2'' = ''=REF+REF''" by code_simp
  have n3: "normalizeFormula ''=B1+B3'' = ''=REF+REF''" by code_simp
  have same: "areFormulasDifferent ''=B1+B2'' ''=B1+B3'' True = False"
    by (simp add: areFormulasDifferent_def n2 n3)
  have diff: "areFormulasDifferent ''=B1+B2'' ''=B1+B3'' False = True"
    by (simp add: areFormulasDifferent_def)
  have cell: "\<And>g. formulaAt [[g]] 0 0 = g"
    by (simp add: formulaAt_def cellAt_def nth_opt_def)
  have t0: "totalDifferences (compareRanges ns [[''=B1+B2'']] [[v]] [[''=B1+B3'']] [[w]]
     \<lparr>compareFormulas = True, ignoreInputs = True, detectAlignment = d\<rparr>) = 0"
    by (simp add: compareRanges_def firstRowLength_def nth_opt_def compareCell_def cell same
        del: One_nat_def)
  have t1: "totalDifferences (compareRanges ns [[''=B1+B2'']] [[v]] [[''=B1+B3'']] [[w]]
     \<lparr>compareFormulas = True, ignoreInputs = False, detectAlignment = d\<rparr>) = 1"
    by (simp add: compareRanges_def firstRowLength_def nth_opt_def compareCell_def cell diff
        del: One_nat_def)
  from n2 n3 same diff t0 t1 show ?thesis by blast
qed

lemma compareCell_ok:
  "state_ok st \<Longrightarrow> state_ok (compareCell ns rf rv cf cv opts r c st)"
  unfolding compareCell_def Let_def state_ok_def blocks_of_def block_ok_def newBlock_def
  by (auto split: option.splits simp: list_all_iff)

lemma compare_loops_ok:
  "state_ok (fold (\<lambda>r. fold (compareCell ns rf rv cf cv opts r) [0..<n]) [0..<m]
      \<lparr>emitted = [], counted = 0, currentBlock = None\<rparr>)"
proof (rule fold_inv)
  show "state_ok \<lparr>emitted = [], counted = 0, currentBlock = None\<rparr>"
    by (simp add: state_ok_def blocks_of_def)
next
  fix r s assume "state_ok s"
  then show "state_ok (fold (compareCell ns rf rv cf cv opts r) [0..<n] s)"
    by (rule fold_inv[rotated]) (rule compareCell_ok)
qed

text \<open>
  Claim C10. In every result of \<open>compareRanges\<close>, the two cell sequences of each
  difference block have the same length and the same addresses, position by position,
  and the total difference count is the sum, over the blocks returned, of the length of
  the block's reference cells.
\<close>

theorem compareRanges_blocks_consistent:
  "(\<forall>b \<in> set (differences (compareRanges ns rf rv cf cv opts)).
      length (referenceCells b) = length (comparatorCells b) \<and>
      map address (referenceCells b) = map address (comparatorCells b)) \<and>
   totalDifferences (compareRanges ns rf rv cf cv opts) =
     sum_list (map (\<lambda>b. length (referenceCells b))
       (differences (compareRanges ns rf rv cf cv opts)))"
proof -
  let ?st = "fold (\<lambda>r. fold (compareCell ns rf rv cf cv opts r)
                 [0..<max (firstRowLength rf) (firstRowLength cf)])
               [0..<max (length rf) (length cf)]
               \<lparr>emitted = [], counted = 0, currentBlock = None\<rparr>"
  have ok: "state_ok ?st" by (rule compare_loops_ok)
  have d: "differences (compareRanges ns rf rv cf cv opts) = blocks_of ?st"
    by (simp add: compareRanges_def Let_def blocks_of_def)
  have t: "totalDifferences (compareRanges ns rf rv cf cv opts) = counted ?st"
    by (simp add: compareRanges_def Let_def)
  have len: "\<And>b. map address (referenceCells b) = map address (comparatorCells b) \<Longrightarrow>
      length (referenceCells b) = length (comparatorCells b)"
    by (metis length_map)
  from ok show ?thesis
    unfolding d t state_ok_def by (auto simp: list_all_iff block_ok_def dest: len)
qed

theorem compareRanges_blocks_consistent_witness:
  "differences (compareRanges (\<lambda>n. []) [[''=B1'', ''=C1'']] [[JNull, JNull]]
      [[''=B2'', ''=C2'']] [[JNull, JNull]]
      \<lparr>compareFormulas = True, ignoreInputs = False, detectAlignment = False\<rparr>) \<noteq> [] \<and>
   list_all (\<lambda>b. length (referenceCells b) = length (comparatorCells b) \<and>
                 map address (referenceCells b) = map address (comparatorCells b))
     (differences (compareRanges (\<lambda>n. []) [[''=B1'', ''=C1'']] [[JNull, JNull]]
      [[''=B2'', ''=C2'']] [[JNull, JNull]]
      \<lparr>compareFormulas = True, ignoreInputs = False, detectAlignment = False\<rparr>)) \<and>
   totalDifferences (compareRanges (\<lambda>n. []) [[''=B1'', ''=C1'']] [[JNull, JNull]]
      [[''=B2'', ''=C2'']] [[JNull, JNull]]
      \<lparr>compareFormulas = True, ignoreInputs = False, detectAlignment = False\<rparr>) = 2"
proof -
  let ?res = "compareRanges (\<lambda>n. []) [[''=B1'', ''=C1'']] [[JNull, JNull]]
      [[''=B2'', ''=C2'']] [[JNull, JNull]]
      \<lparr>compareFormulas = True, ignoreInputs = False, detectAlignment = False\<rparr>"
  have a: "differences ?res \<noteq> []" by code_simp
  have b: "totalDifferences ?res = 2" by code_simp
  from a b compareRanges_blocks_consistent [of "\<lambda>n. []" "[[''=B1'', ''=C1'']]"
      "[[JNull, JNull]]" "[[''=B2'', ''=C2'']]" "[[JNull, JNull]]"
      "\<lparr>compareFormulas = True, ignoreInputs = False, detectAlignment = False\<rparr>"]
  show ?thesis unfolding list_all_iff by blast
qed

section \<open>Properties of cell addresses\<close>

lemma of_char_char_of_small: "n < 256 \<Longrightarrow> (of_char (char_of (n::nat)) :: nat) = n"
  by (simp add: of_char_of)

lemma columnToNumber_snoc:
  "columnToNumber (ls @ [c]) = columnToNumber ls * 26 + ((of_char c :: nat) - 64)"
  by (simp add: columnToNumber_def)

lemma numberToColumn_loop_step:
  assumes "is_upper c"
  shows "numberToColumn_loop (m * 26 + ((of_char c :: nat) - 64)) acc = numberToColumn_loop m (c # acc)"
proof -
  let ?x = "of_char c :: nat"
  from assms have r: "65 \<le> ?x" "?x \<le> 90" by (auto simp: is_upper_def)
  define d where "d = ?x - 65"
  have d: "?x = 65 + d" "d < 26" using r by (simp_all add: d_def)
  have n: "m * 26 + (?x - 64) - 1 = m * 26 + d" using d by simp
  have "char_of ?x = c" by (rule char_of_char)
  then have c: "char_of (65 + d) = c" using d(1) by simp
  show ?thesis
    apply (subst numberToColumn_loop.simps)
    using d n c by simp
qed

lemma numberToColumn_loop_columnToNumber:
  "\<forall>c\<in>set ls. is_upper c \<Longrightarrow> numberToColumn_loop (columnToNumber ls) acc = ls @ acc"
proof (induction ls arbitrary: acc rule: rev_induct)
  case Nil
  show ?case by (simp add: columnToNumber_def numberToColumn_loop.simps)
next
  case (snoc c ls)
  then show ?case
    by (simp add: columnToNumber_snoc numberToColumn_loop_step)
qed

lemma numberToColumn_columnToNumber:
  "\<forall>c\<in>set ls. is_upper c \<Longrightarrow> numberToColumn (columnToNumber ls) = ls"
  by (simp add: numberToColumn_def numberToColumn_loop_columnToNumber)

lemma parseInt_snoc: "parseInt (ds @ [c]) = parseInt ds * 10 + ((of_char c :: nat) - 48)"
  by (simp add: parseInt_def)

lemma parseInt_num_to_string: "parseInt (num_to_string n) = n"
proof (induction n rule: num_to_string.induct)
  case (1 n)
  show ?case
  proof (cases "n < 10")
    case True
    then show ?thesis
      by (subst num_to_string.simps) (simp add: parseInt_def of_char_of)
  next
    case False
    with 1 have ih: "parseInt (num_to_string (n div 10)) = n div 10" by simp
    have "(of_char (char_of (48 + n mod 10)) :: nat) = 48 + n mod 10"
      by (simp add: of_char_of)
    with False ih show ?thesis
      by (subst num_to_string.simps) (simp add: parseInt_snoc)
  qed
qed

lemma num_to_string_digits: "c \<in> set (num_to_string n) \<Longrightarrow> is_digit c"
proof (induction n rule: num_to_string.induct)
  case (1 n)
  have d: "\<And>k::nat. k < 10 \<Longrightarrow> is_digit (char_of (48 + k))"
    by (simp add: is_digit_def of_char_of)
  from 1 show ?case
    by (subst (asm) num_to_string.simps) (auto simp: d split: if_splits)
qed

lemma num_to_string_nonempty: "num_to_string n \<noteq> []"
  by (subst num_to_string.simps) simp


lemma rev_upt_from_1: "0 < n \<Longrightarrow> rev [1..<Suc n] = n # rev [1..<n]"
  by (simp add: upt_Suc_append)

lemma rmatch_Many1_head:
  assumes "takeWhile p s = xs" "xs \<noteq> []"
  shows "\<exists>t. rmatch (Many1 p) (i, s, c) = (i + length xs, drop (length xs) s, c) # t"
  using assms by (auto simp: upt_Suc_append Suc_le_eq)

lemma rmatch_Many1_none:
  assumes "takeWhile p s = []"
  shows "rmatch (Many1 p) (i, s, c) = []"
  using assms by simp

lemma takeWhile_all: "\<forall>x\<in>set xs. p x \<Longrightarrow> ys = [] \<or> \<not> p (hd ys) \<Longrightarrow> takeWhile p (xs @ ys) = xs"
  by (cases ys) (auto simp: takeWhile_append2)

lemma upper_not_digit: "is_upper c \<Longrightarrow> \<not> is_digit c"
  by (auto simp: is_upper_def is_digit_def)

lemma digit_not_letter: "is_digit c \<Longrightarrow> \<not> is_letter c"
  by (auto simp: is_upper_def is_lower_def is_letter_def is_digit_def)

lemma rmatch_coordsPattern:
  assumes ls: "ls \<noteq> []" "\<forall>c\<in>set ls. is_letter c"
      and ds: "ds \<noteq> []" "\<forall>c\<in>set ds. is_digit c"
  shows "\<exists>t. rmatch coordsPattern (i, ls @ ds, []) =
           (i + length ls + length ds, [], [(2, ds), (1, ls)]) # t"
proof -
  have tl: "takeWhile is_letter (ls @ ds) = ls"
    using ls ds by (intro takeWhile_all) (auto simp: digit_not_letter hd_in_set)
  have td: "takeWhile is_digit ds = ds"
    using ds by simp
  from rmatch_Many1_head[OF tl ls(1), of i "[]"]
  obtain t1 where m1: "rmatch (Many1 is_letter) (i, ls @ ds, []) = (i + length ls, ds, []) # t1"
    by auto
  from rmatch_Many1_head[OF td ds(1), of "i + length ls" "[(1, ls)]"]
  obtain t2 where m2: "rmatch (Many1 is_digit) (i + length ls, ds, [(1, ls)]) =
      (i + length ls + length ds, [], [(1, ls)]) # t2"
    by auto
  show ?thesis
    unfolding coordsPattern_def Seqs_def
    using m1 m2 by (simp del: rmatch.simps(3) add: rmatch.simps(3)[symmetric])
qed


lemma js_split_none: "c \<notin> set s \<Longrightarrow> js_split c s = [s]"
  by (induction s) auto

lemma rx_exec_coords_here:
  assumes ls: "ls \<noteq> []" "\<forall>c\<in>set ls. is_letter c"
      and ds: "ds \<noteq> []" "\<forall>c\<in>set ds. is_digit c"
  shows "rx_exec coordsPattern i (ls @ ds) = Some (i, ls @ ds, [(2, ds), (1, ls)])"
proof -
  from ls(1) obtain x xs where x: "ls @ ds = x # xs" by (cases ls) auto
  from rmatch_coordsPattern[OF assms, of i]
  obtain t where "rmatch coordsPattern (i, ls @ ds, []) =
      (i + length ls + length ds, [], [(2, ds), (1, ls)]) # t" by blast
  moreover have "length ls + length ds = Suc (length xs)"
    using arg_cong[OF x, of length] by simp
  ultimately have "rx_exec coordsPattern i (x # xs) = Some (i, x # xs, [(2, ds), (1, ls)])"
    by (simp add: x rx_exec.simps)
  then show ?thesis by (simp add: x)
qed

lemma rx_exec_coords_dollar:
  "rx_exec coordsPattern i (CHR ''$'' # s) = rx_exec coordsPattern (Suc i) s"
proof -
  have "takeWhile is_letter (CHR ''$'' # s) = []"
    by (simp add: is_letter_def is_upper_def is_lower_def)
  then have "rmatch coordsPattern (i, CHR ''$'' # s, []) = []"
    unfolding coordsPattern_def Seqs_def by simp
  then show ?thesis by (simp add: rx_exec.simps)
qed

lemma addressToCoords_plain:
  assumes ls: "ls \<noteq> []" "\<forall>c\<in>set ls. is_letter c"
      and d: "dollar = [] \<or> dollar = ''$''"
  shows "addressToCoords (dollar @ ls @ num_to_string n) = Inr \<lparr>row = n, col = columnToNumber ls\<rparr>"
proof -
  have ds: "num_to_string n \<noteq> []" "\<forall>c\<in>set (num_to_string n). is_digit c"
    by (simp_all add: num_to_string_nonempty num_to_string_digits)
  have "rx_exec coordsPattern 0 (dollar @ ls @ num_to_string n) =
          Some (length dollar, ls @ num_to_string n, [(2, num_to_string n), (1, ls)])"
    using d by (auto simp: rx_exec_coords_dollar rx_exec_coords_here[OF ls ds])
  then show ?thesis
    by (simp add: addressToCoords_def group_def parseInt_num_to_string)
qed

lemma upper_letter: "is_upper c \<Longrightarrow> is_letter c"
  by (simp add: is_letter_def)

text \<open>
  Claim C6, as amended. For every address made of an optional leading \<open>$\<close>, one or more
  upper-case column letters and, directly after them, a row number in decimal without
  leading zeros (row and column below \<open>2 ^ 53\<close>, where the numbers of the source are
  exact), \<open>addressToCoords\<close> returns the row and the column, building the address back
  from the coordinates gives the address without the \<open>$\<close>, and so does
  \<open>getCellAddress\<close> with offsets zero. The conversion between column letters and
  numbers is base 26 without a zero digit: 1 is A, 26 is Z, 27 is AA.
\<close>

theorem address_round_trip:
  assumes "ls \<noteq> []" and "\<forall>c\<in>set ls. is_upper c"
      and "dollar = [] \<or> dollar = ''$''"
      and "n < 2 ^ 53" and "columnToNumber ls < 2 ^ 53"
  shows "addressToCoords (dollar @ ls @ num_to_string n) = Inr \<lparr>row = n, col = columnToNumber ls\<rparr> \<and>
         getAddress n (columnToNumber ls) = ls @ num_to_string n \<and>
         getCellAddress (dollar @ ls @ num_to_string n) 0 0 = Inr (ls @ num_to_string n) \<and>
         numberToColumn 1 = ''A'' \<and> numberToColumn 26 = ''Z'' \<and> numberToColumn 27 = ''AA''"
proof -
  have letters: "\<forall>c\<in>set ls. is_letter c" using assms(2) by (simp add: upper_letter)
  have a: "addressToCoords (dollar @ ls @ num_to_string n) = Inr \<lparr>row = n, col = columnToNumber ls\<rparr>"
    by (rule addressToCoords_plain[OF assms(1) letters assms(3)])
  have b: "getAddress n (columnToNumber ls) = ls @ num_to_string n"
    using assms(2) by (simp add: getAddress_def numberToColumn_columnToNumber)
  have nocolon: "CHR '':'' \<notin> set (dollar @ ls @ num_to_string n)"
    using assms(2,3) num_to_string_digits[of "CHR '':''" n]
    by (auto simp: is_upper_def is_digit_def)
  have c: "getCellAddress (dollar @ ls @ num_to_string n) 0 0 = Inr (ls @ num_to_string n)"
    using assms(2) by (simp add: getCellAddress_def js_split_none[OF nocolon] a numberToColumn_columnToNumber)
  have e: "numberToColumn 1 = ''A''" "numberToColumn 26 = ''Z''" "numberToColumn 27 = ''AA''"
    by code_simp+
  from a b c e show ?thesis by blast
qed

theorem address_round_trip_witness:
  "addressToCoords ''$AB12'' = Inr \<lparr>row = 12, col = 28\<rparr> \<and>
   getAddress 12 28 = ''AB12'' \<and>
   getCellAddress ''$AB12'' 0 0 = Inr ''AB12''"
proof -
  have n: "num_to_string 12 = ''12''" by code_simp
  have c: "columnToNumber ''AB'' = 28" by code_simp
  have u: "\<forall>c\<in>set ''AB''. is_upper c" by (simp add: is_upper_def)
  have "addressToCoords (''$'' @ ''AB'' @ num_to_string 12) = Inr \<lparr>row = 12, col = columnToNumber ''AB''\<rparr> \<and>
         getAddress 12 (columnToNumber ''AB'') = ''AB'' @ num_to_string 12 \<and>
         getCellAddress (''$'' @ ''AB'' @ num_to_string 12) 0 0 = Inr (''AB'' @ num_to_string 12)"
    using address_round_trip[of "''AB''" "''$''" 12] u c by simp
  then show ?thesis unfolding n c by simp
qed

text \<open>
  Three addresses on which the round trip of claim C6 fails. The address \<open>$A$1\<close>, with
  a \<open>$\<close> between the column letter and the row digit, has no coordinates: the pattern
  of \<open>addressToCoords\<close> wants a digit right after the letters, and the function throws
  instead of returning row 1, column 1. The address \<open>a1\<close> is accepted (the pattern
  ignores case) but \<open>columnToNumber\<close> reads the lower-case letter as column 33, and the
  way back gives \<open>AG1\<close>. The address \<open>A01\<close> is accepted and comes back as \<open>A1\<close>.
\<close>

theorem addressToCoords_dollar_counterexample:
  "addressToCoords ''$A$1'' = Inl (InvalidCellAddress ''$A$1'') \<and>
   getCellAddress ''$A$1'' 0 0 = Inl (InvalidCellAddress ''$A$1'') \<and>
   addressToCoords ''a1'' = Inr \<lparr>row = 1, col = 33\<rparr> \<and>
   getAddress 1 33 = ''AG1'' \<and>
   getCellAddress ''a1'' 0 0 = Inr ''AG1'' \<and>
   addressToCoords ''A01'' = Inr \<lparr>row = 1, col = 1\<rparr> \<and>
   getAddress 1 1 = ''A1'' \<and>
   getCellAddress ''A01'' 0 0 = Inr ''A1''"
  by code_simp

section \<open>Properties of the parser\<close>

lemma sequence_sum_all:
  "(\<And>x. x \<in> set xs \<Longrightarrow> \<exists>v. f x = Inr v) \<Longrightarrow> \<exists>vs. sequence_sum (map f xs) = Inr vs"
proof (induction xs)
  case Nil
  show ?case by simp
next
  case (Cons x xs)
  then obtain v where v: "f x = Inr v" by auto
  from Cons obtain vs where "sequence_sum (map f xs) = Inr vs" by auto
  with v show ?case by simp
qed

text \<open>
  The \<open>throw\<close> of \<open>parseFunction\<close> is never reached: \<open>parseExpression\<close> calls it only
  on a text that the pattern of a function head matches.
\<close>

lemma parse_functions_total:
  "(\<exists>node. parseExpression expr0 = Inr node)"
  "(funcMatch expr \<noteq> None \<longrightarrow> (\<exists>node. parseFunction expr = Inr node))"
proof (induction expr0 and expr rule: parseExpression_parseFunction.induct)
  case (1 expr0)
  show ?case
  proof (cases "funcMatch (trim expr0) \<noteq> None")
    case True
    with 1(1)[OF refl True] show ?thesis
      by (subst parseExpression.simps) (simp add: Let_def)
  next
    case nf: False
    show ?thesis
    proof (cases "isCellReference (trim expr0)")
      case True
      with nf show ?thesis by (subst parseExpression.simps) (simp add: Let_def)
    next
      case nr: False
      show ?thesis
      proof (cases "isLiteral (trim expr0)")
        case True
        with nf nr show ?thesis by (subst parseExpression.simps) (simp add: Let_def)
      next
        case nl: False
        show ?thesis
        proof (cases "findTopLevelOperator (trim expr0)")
          case None
          with nf nr nl show ?thesis by (subst parseExpression.simps) (simp add: Let_def)
        next
          case (Some m)
          from 1(2)[OF refl nf nr nl Some]
          obtain l where l: "parseExpression (substring (trim expr0) 0 (index m)) = Inr l"
            by blast
          from 1(3)[OF refl nf nr nl Some l]
          obtain r where
            r: "parseExpression (drop (index m + length (operator m)) (trim expr0)) = Inr r"
            by blast
          from nf nr nl Some l r show ?thesis
            by (subst parseExpression.simps) (simp add: Let_def)
        qed
      qed
    qed
  qed
next
  case (2 expr)
  show ?case
  proof
    assume "funcMatch expr \<noteq> None"
    then obtain st mt c where fm: "funcMatch expr = Some (st, mt, c)"
      by (cases "funcMatch expr") auto
    let ?args = "splitArguments (substring expr (length mt) (findMatchingParen expr (length mt - 1)))"
    have "\<And>a. a \<in> set ?args \<Longrightarrow> \<exists>v. parseExpression a = Inr v"
      using 2[OF fm refl refl refl refl refl refl] by simp
    from sequence_sum_all[of ?args parseExpression, OF this]
    obtain vs where "sequence_sum (map parseExpression ?args) = Inr vs" by blast
    with fm show "\<exists>node. parseFunction expr = Inr node"
      by (subst parseFunction.simps) (simp add: Let_def)
  qed
qed

lemma substring_to_end: "a \<le> length s \<Longrightarrow> substring s a (length s) = drop a s"
  by (simp add: substring_def Let_def min_def max_def)

text \<open>
  Claim C7, as amended. \<open>parse\<close> never throws: every text yields a tree. When the
  formula is \<open>=\<close> followed by an expression that, once trimmed, begins with the head of
  a function call (a name, optional spaces, an opening parenthesis) and
  \<open>findMatchingParen\<close> finds no closing parenthesis for that opening one, so that it
  answers the length of the text, the rest of the text after the opening parenthesis is
  the argument string: it is split at its top-level commas, every part is parsed, and
  the result of \<open>parse\<close> is the function node with the upper-cased name and the parsed
  parts as its children, as for a well-formed call. An unclosed call that does not stand
  at the head of the expression is not covered.
\<close>

theorem parse_never_throws:
  "(\<exists>node. parse formulaText = Inr node) \<and>
   (\<forall>st mt c. funcMatch (trim e) = Some (st, mt, c) \<and>
       findMatchingParen (trim e) (length mt - 1) = length (trim e) \<longrightarrow>
      (\<exists>nodes. sequence_sum (map parseExpression (splitArguments (drop (length mt) (trim e)))) =
                 Inr nodes \<and>
               parseExpression e =
                 Inr (FormulaNode FunctionNode (toUpperCase (the (group c 1))) (Some nodes)
                        None None) \<and>
               parse (''='' @ e) =
                 Inr (FormulaNode FunctionNode (toUpperCase (the (group c 1))) (Some nodes)
                        None None)))"
proof (intro conjI allI impI)
  show "\<exists>node. parse formulaText = Inr node"
    using parse_functions_total(1)[of "drop 1 formulaText"] by (simp add: parse_def)
next
  fix st mt c
  assume a: "funcMatch (trim e) = Some (st, mt, c) \<and>
    findMatchingParen (trim e) (length mt - 1) = length (trim e)"
  then have fm: "funcMatch (trim e) = Some (st, mt, c)"
    and e: "findMatchingParen (trim e) (length mt - 1) = length (trim e)" by simp_all
  from funcMatch_length[OF fm] have "length mt \<le> length (trim e)" by simp
  then have s: "substring (trim e) (length mt) (length (trim e)) = drop (length mt) (trim e)"
    by (rule substring_to_end)
  let ?args = "splitArguments (drop (length mt) (trim e))"
  have "\<And>a. a \<in> set ?args \<Longrightarrow> \<exists>v. parseExpression a = Inr v"
    by (rule parse_functions_total(1))
  from sequence_sum_all[of ?args parseExpression, OF this]
  obtain vs where vs: "sequence_sum (map parseExpression ?args) = Inr vs" by blast
  have pf: "parseFunction (trim e) =
      Inr (FormulaNode FunctionNode (toUpperCase (the (group c 1))) (Some vs) None None)"
    by (subst parseFunction.simps) (simp add: Let_def fm e s vs del: One_nat_def)
  have pe: "parseExpression e =
      Inr (FormulaNode FunctionNode (toUpperCase (the (group c 1))) (Some vs) None None)"
    by (subst parseExpression.simps) (simp add: Let_def fm pf)
  have pp: "parse (''='' @ e) = parseExpression e"
    by (simp add: parse_def startsWith_def)
  from vs pe pp show "\<exists>nodes. sequence_sum (map parseExpression ?args) = Inr nodes \<and>
      parseExpression e =
        Inr (FormulaNode FunctionNode (toUpperCase (the (group c 1))) (Some nodes) None None) \<and>
      parse (''='' @ e) =
        Inr (FormulaNode FunctionNode (toUpperCase (the (group c 1))) (Some nodes) None None)"
    by simp
qed

theorem parse_never_throws_witness:
  "trim '' SUM(A1,B1'' = ''SUM(A1,B1'' \<and>
   funcMatch ''SUM(A1,B1'' = Some (0, ''SUM('', [(1, ''SUM'')]) \<and>
   findMatchingParen ''SUM(A1,B1'' 3 = 9 \<and>
   splitArguments ''A1,B1'' = [''A1'', ''B1''] \<and>
   (\<exists>node. parse ''= SUM(A1,B1'' = Inr node) \<and>
   (\<exists>nodes. sequence_sum (map parseExpression [''A1'', ''B1'']) = Inr nodes \<and>
      parse ''= SUM(A1,B1'' =
      Inr (FormulaNode FunctionNode ''SUM'' (Some nodes) None None))"
proof -
  have t: "trim '' SUM(A1,B1'' = ''SUM(A1,B1''" by code_simp
  have fm: "funcMatch ''SUM(A1,B1'' = Some (0, ''SUM('', [(1, ''SUM'')])" by code_simp
  have e: "findMatchingParen ''SUM(A1,B1'' 3 = 9" by code_simp
  have u: "toUpperCase (the (group [(1, ''SUM'')] 1)) = ''SUM''" by code_simp
  have sp: "splitArguments (drop (length ''SUM('') ''SUM(A1,B1'') = [''A1'', ''B1'']" by code_simp
  have sp2: "splitArguments ''A1,B1'' = [''A1'', ''B1'']" by code_simp
  have pre: "funcMatch (trim '' SUM(A1,B1'') = Some (0, ''SUM('', [(1, ''SUM'')]) \<and>
     findMatchingParen (trim '' SUM(A1,B1'') (length ''SUM('' - 1) = length (trim '' SUM(A1,B1'')"
    by code_simp
  note th = parse_never_throws[of "''= SUM(A1,B1''" "'' SUM(A1,B1''"]
  from th have total: "\<exists>node. parse ''= SUM(A1,B1'' = Inr node" by (rule conjunct1)
  from th[THEN conjunct2, rule_format, OF pre]
  obtain nodes where
    "sequence_sum (map parseExpression (splitArguments (drop (length ''SUM('') (trim '' SUM(A1,B1'')))) = Inr nodes"
    "parse (''='' @ '' SUM(A1,B1'') =
      Inr (FormulaNode FunctionNode (toUpperCase (the (group [(1, ''SUM'')] 1))) (Some nodes)
             None None)"
    by blast
  then have "\<exists>nodes. sequence_sum (map parseExpression [''A1'', ''B1'']) = Inr nodes \<and>
      parse ''= SUM(A1,B1'' =
      Inr (FormulaNode FunctionNode ''SUM'' (Some nodes) None None)"
    unfolding u t sp by simp
  with t fm e sp2 total show ?thesis by blast
qed

text \<open>
  The formula \<open>=SUM(A1,B1\<close> has no closing parenthesis. The rest of the text after the
  opening parenthesis, \<open>A1,B1\<close>, does not become one literal node: the result is a
  function node with two reference nodes as children.
\<close>

theorem parse_unclosed_call_counterexample:
  "findMatchingParen ''SUM(A1,B1'' 3 = length ''SUM(A1,B1'' \<and>
   parse ''=SUM(A1,B1'' =
     Inr (FormulaNode FunctionNode ''SUM''
            (Some [FormulaNode ReferenceNode ''A1'' None (Some ''A1'') None,
                   FormulaNode ReferenceNode ''B1'' None (Some ''B1'') None])
            None None)"
  by code_simp

text \<open>
  Claim C5 at a concrete input. \<open>SWITCH\<close> is annotated with the argument values
  \<open>1, 1, "a", "d"\<close>: the first case value equals the first argument and the argument count,
  four, is even. The code marks the case node and the result node of the matching case,
  and then the default (last) child as well.
\<close>

theorem switch_default_marked_after_match:
  "evaluateLogicalBranch_SWITCH [JNum (Fin 1), JNum (Fin 1), JStr ''a'', JStr ''d'']
     (FormulaNode FunctionNode ''SWITCH''
        (Some [FormulaNode ReferenceNode ''A1'' None (Some ''A1'') None,
               FormulaNode LiteralNode ''1'' None None None,
               FormulaNode LiteralNode ''a'' None None None,
               FormulaNode LiteralNode ''d'' None None None])
        None None) =
   Inr (FormulaNode FunctionNode ''SWITCH''
        (Some [FormulaNode ReferenceNode ''A1'' None (Some ''A1'') None,
               FormulaNode LiteralNode ''1'' None None (Some True),
               FormulaNode LiteralNode ''a'' None None (Some True),
               FormulaNode LiteralNode ''d'' None None (Some True)])
        None None)"
  by code_simp

lemma scanOperator_step:
  "scanOperator op expr (Suc i) d b sc =
     (case scanStep expr i d b sc of
        ((d', b', sc'), test) \<Rightarrow>
          if test then (case operatorAt op expr i of
                          Some m \<Rightarrow> Inl m
                        | None \<Rightarrow> scanOperator op expr i d' b' sc')
          else scanOperator op expr i d' b' sc')"
  by (simp add: scanStep_def Let_def split: option.split)

lemma topLevelFrom_step:
  "topLevelFrom expr (Suc i) d b sc =
     (case scanStep expr i d b sc of
        ((d', b', sc'), test) \<Rightarrow>
          if test then i # topLevelFrom expr i d' b' sc'
          else topLevelFrom expr i d' b' sc')"
  by (simp add: scanStep_def Let_def)

lemma scanOperator_filter:
  "(case scanOperator op expr n d b sc of Inl m \<Rightarrow> Some m | Inr x \<Rightarrow> None) =
   (case filter (matchesAt op expr) (topLevelFrom expr n d b sc) of
      [] \<Rightarrow> None
    | i # rest \<Rightarrow> operatorAt op expr i)"
proof (induction n arbitrary: d b sc)
  case 0
  show ?case by simp
next
  case (Suc n)
  obtain d' b' sc' t where st: "scanStep expr n d b sc = ((d', b', sc'), t)"
    by (metis prod_cases3 surj_pair)
  show ?case
  proof (cases "operatorAt op expr n")
    case None
    then have m: "\<not> matchesAt op expr n" by (simp add: matchesAt_def)
    show ?thesis
      unfolding scanOperator_step topLevelFrom_step st by (simp add: Suc m None)
  next
    case (Some a)
    then have m: "matchesAt op expr n" by (simp add: matchesAt_def)
    show ?thesis
      unfolding scanOperator_step topLevelFrom_step st by (simp add: Suc m Some)
  qed
qed

lemma scanStep_stringChar:
  "fst (fst (scanStep expr i d False sc)) = fst (fst (scanStep expr i d False sc'))"
  "fst (snd (fst (scanStep expr i d False sc))) = fst (snd (fst (scanStep expr i d False sc')))"
  "snd (scanStep expr i d False sc) = snd (scanStep expr i d False sc')"
  "fst (snd (fst (scanStep expr i d False sc))) \<Longrightarrow>
     snd (snd (fst (scanStep expr i d False sc))) = snd (snd (fst (scanStep expr i d False sc')))"
  by (auto simp: scanStep_def Let_def dquote_def squote_def split: if_splits)

lemma topLevelFrom_inString:
  "topLevelFrom expr n d False sc = topLevelFrom expr n d False sc'"
proof (induction n arbitrary: d sc sc')
  case 0
  show ?case by simp
next
  case (Suc n)
  obtain d1 b1 s1 t1 where st1: "scanStep expr n d False sc = ((d1, b1, s1), t1)"
    by (metis prod_cases3 surj_pair)
  obtain d2 b2 s2 t2 where st2: "scanStep expr n d False sc' = ((d2, b2, s2), t2)"
    by (metis prod_cases3 surj_pair)
  from scanStep_stringChar[of expr n d sc sc'] st1 st2
  have e: "d1 = d2" "b1 = b2" "t1 = t2" "b1 \<Longrightarrow> s1 = s2" by simp_all
  have "topLevelFrom expr n d1 b1 s1 = topLevelFrom expr n d2 b2 s2"
  proof (cases b1)
    case True
    with e show ?thesis by simp
  next
    case False
    with e Suc[of d1 s1 s2] show ?thesis by simp
  qed
  then show ?case
    unfolding topLevelFrom_step st1 st2 using e by simp
qed

lemma topLevelFrom_bound: "i \<in> set (topLevelFrom expr n d b sc) \<Longrightarrow> i < n"
proof (induction n arbitrary: d b sc)
  case 0
  then show ?case by simp
next
  case (Suc n)
  obtain d' b' sc' t where st: "scanStep expr n d b sc = ((d', b', sc'), t)"
    by (metis prod_cases3 surj_pair)
  from Suc.prems have "i = n \<or> i \<in> set (topLevelFrom expr n d' b' sc')"
    unfolding topLevelFrom_step st by (simp split: if_splits)
  with Suc.IH[of d' b' sc'] show ?case by auto
qed

lemma topLevelFrom_sorted: "sorted_wrt (>) (topLevelFrom expr n d b sc)"
proof (induction n arbitrary: d b sc)
  case 0
  show ?case by simp
next
  case (Suc n)
  obtain d' b' sc' t where st: "scanStep expr n d b sc = ((d', b', sc'), t)"
    by (metis prod_cases3 surj_pair)
  show ?case
    unfolding topLevelFrom_step st
    using Suc[of d' b' sc'] topLevelFrom_bound[of _ expr n d' b' sc'] by auto
qed

lemma filter_head_greatest:
  assumes "sorted_wrt (>) (xs :: nat list)" and "filter P xs = i # rest"
  shows "i \<in> set xs \<and> P i \<and> (\<forall>j\<in>set xs. P j \<longrightarrow> j \<le> i)"
proof -
  have mem: "i \<in> set (filter P xs)" using assms(2) by simp
  have s: "sorted_wrt (>) (i # rest)"
    using sorted_wrt_filter[OF assms(1), of P] assms(2) by simp
  {
    fix j assume "j \<in> set xs" "P j"
    then have "j \<in> set (filter P xs)" by simp
    then have "j \<in> set (i # rest)" using assms(2) by simp
    with s have "j \<le> i" by auto
  }
  with mem show ?thesis by auto
qed

lemma scan_whole:
  "(case scanOperator op expr (length expr) 0 False sc of Inl m \<Rightarrow> Some m | Inr x \<Rightarrow> None) =
   (case filter (matchesAt op expr) (topLevelIndices expr) of
      [] \<Rightarrow> None
    | i # rest \<Rightarrow> operatorAt op expr i)"
  unfolding topLevelIndices_def
  using scanOperator_filter[of op expr "length expr" 0 False sc]
        topLevelFrom_inString[of expr "length expr" 0 sc "[]"]
  by simp

lemma findOperatorIn_first:
  "findOperatorIn ops expr sc = Some m \<Longrightarrow>
     \<exists>ops1 ops2 i rest. ops = ops1 @ operator m # ops2 \<and>
       (\<forall>op'\<in>set ops1. filter (matchesAt op' expr) (topLevelIndices expr) = []) \<and>
       filter (matchesAt (operator m) expr) (topLevelIndices expr) = i # rest \<and>
       operatorAt (operator m) expr i = Some m"
proof (induction ops arbitrary: sc)
  case Nil
  then show ?case by simp
next
  case (Cons op ops)
  show ?case
  proof (cases "scanOperator op expr (length expr) 0 False sc")
    case (Inl m')
    with Cons.prems have mm: "m' = m" by simp
    from scan_whole[of op expr sc] Inl mm
    obtain i rest where f: "filter (matchesAt op expr) (topLevelIndices expr) = i # rest"
      and at: "operatorAt op expr i = Some m"
      by (auto split: list.splits)
    from operatorAt_found[OF at] have o: "operator m = op" by simp
    have "op # ops = [] @ operator m # ops" using o by simp
    with f at o show ?thesis by (metis empty_iff list.set(1))
  next
    case (Inr sc')
    with Cons.prems have "findOperatorIn ops expr sc' = Some m" by simp
    from Cons.IH[OF this] obtain ops1 ops2 i rest where
      a: "ops = ops1 @ operator m # ops2"
      "\<forall>op'\<in>set ops1. filter (matchesAt op' expr) (topLevelIndices expr) = []"
      "filter (matchesAt (operator m) expr) (topLevelIndices expr) = i # rest"
      "operatorAt (operator m) expr i = Some m" by blast
    from scan_whole[of op expr sc] Inr
    have n: "filter (matchesAt op expr) (topLevelIndices expr) = []"
      by (auto split: list.splits simp: matchesAt_def filter_eq_Cons_iff)
    have "op # ops = (op # ops1) @ operator m # ops2" using a(1) by simp
    moreover have "\<forall>op'\<in>set (op # ops1). filter (matchesAt op' expr) (topLevelIndices expr) = []"
      using a(2) n by simp
    ultimately show ?thesis using a(3,4) by blast
  qed
qed


lemma substring_take_drop:
  "a \<le> b \<Longrightarrow> b \<le> length s \<Longrightarrow> substring s a b = take (b - a) (drop a s)"
  by (auto simp: substring_def Let_def min_def max_def)

lemma operatorAt_text:
  assumes "operatorAt op expr i = Some m" and "i < length expr"
  shows "take (length op) (drop (index m) expr) = op"
proof -
  from assms(1) consider
      (two) "length op = 2" "0 < i" "substring expr (i - 1) (i + 1) = op" "index m = i - 1"
    | (one) "length op = 1" "[expr ! i] = op" "index m = i"
    by (auto simp: operatorAt_def split: if_splits)
  then show ?thesis
  proof cases
    case two
    from two(2) assms(2) have "substring expr (i - 1) (i + 1) = take 2 (drop (i - 1) expr)"
      using substring_take_drop[of "i - 1" "i + 1" expr] by simp
    with two show ?thesis by simp
  next
    case one
    from assms(2) have "take 1 (drop i expr) = [expr ! i]"
      by (simp add: take_Suc_conv_app_nth[of 0] Cons_nth_drop_Suc[symmetric])
    with one show ?thesis by simp
  qed
qed

text \<open>
  Claim C4, as amended. When \<open>parseExpression\<close> reaches the search for an operator (the
  trimmed text is no function call, no reference and no literal) and the search finds
  one, then: the operator found is the first symbol of the list
  \<open>=, <>, <=, >=, <, >, &, +, -, *, /, ^\<close> that occurs at top level, no symbol before it
  in the list occurring at top level anywhere; it is found at the rightmost top-level
  occurrence of that symbol; and the result is an operator node labelled with the
  symbol, whose two children are the parses of the text before and of the text after
  the symbol. The symbols are tried one by one, not tier by tier: \<open>+\<close> wins over a
  \<open>-\<close> further right, \<open>*\<close> over a \<open>/\<close> further right. The statement is about expressions
  with no top-level \<open><=\<close> or \<open>>=\<close>; it says nothing of the others.
\<close>

theorem parse_operator_split:
  assumes nf: "funcMatch (trim e) = None"
      and nr: "\<not> isCellReference (trim e)"
      and nl: "\<not> isLiteral (trim e)"
      and sel: "findTopLevelOperator (trim e) = Some m"
      and scope: "\<forall>i\<in>set (topLevelIndices (trim e)).
                    \<not> matchesAt ''<='' (trim e) i \<and> \<not> matchesAt ''>='' (trim e) i"
  shows "\<exists>ops1 ops2 i l r.
     precedenceOrder = ops1 @ operator m # ops2 \<and>
     (\<forall>op'\<in>set ops1. \<forall>j\<in>set (topLevelIndices (trim e)). \<not> matchesAt op' (trim e) j) \<and>
     i \<in> set (topLevelIndices (trim e)) \<and>
     operatorAt (operator m) (trim e) i = Some m \<and>
     (\<forall>j\<in>set (topLevelIndices (trim e)). matchesAt (operator m) (trim e) j \<longrightarrow> j \<le> i) \<and>
     take (length (operator m)) (drop (index m) (trim e)) = operator m \<and>
     parseExpression (take (index m) (trim e)) = Inr l \<and>
     parseExpression (drop (index m + length (operator m)) (trim e)) = Inr r \<and>
     parseExpression e = Inr (FormulaNode OperatorNode (operator m) (Some [l, r]) None None)"
proof -
  let ?x = "trim e"
  from sel have "findOperatorIn precedenceOrder ?x [] = Some m"
    by (simp add: findTopLevelOperator_def)
  from findOperatorIn_first[OF this] obtain ops1 ops2 i rest where
    a: "precedenceOrder = ops1 @ operator m # ops2"
    and b: "\<forall>op'\<in>set ops1. filter (matchesAt op' ?x) (topLevelIndices ?x) = []"
    and c: "filter (matchesAt (operator m) ?x) (topLevelIndices ?x) = i # rest"
    and d: "operatorAt (operator m) ?x i = Some m"
    by blast
  have srt: "sorted_wrt (>) (topLevelIndices ?x)"
    unfolding topLevelIndices_def by (rule topLevelFrom_sorted)
  from filter_head_greatest[OF srt c]
  have i: "i \<in> set (topLevelIndices ?x)"
    and mx: "\<forall>j\<in>set (topLevelIndices ?x). matchesAt (operator m) ?x j \<longrightarrow> j \<le> i"
    by simp_all
  from i have il: "i < length ?x"
    unfolding topLevelIndices_def by (rule topLevelFrom_bound)
  from b have b': "\<forall>op'\<in>set ops1. \<forall>j\<in>set (topLevelIndices ?x). \<not> matchesAt op' ?x j"
    by (simp add: filter_empty_conv)
  have t: "take (length (operator m)) (drop (index m) ?x) = operator m"
    by (rule operatorAt_text[OF d il])
  from findTopLevelOperator_found[OF sel] have "index m \<le> length ?x" by simp
  then have sub: "substring ?x 0 (index m) = take (index m) ?x"
    using substring_take_drop[of 0 "index m" ?x] by simp
  obtain l where l: "parseExpression (take (index m) ?x) = Inr l"
    using parse_functions_total(1) by blast
  obtain r where r: "parseExpression (drop (index m + length (operator m)) ?x) = Inr r"
    using parse_functions_total(1) by blast
  have p: "parseExpression e = Inr (FormulaNode OperatorNode (operator m) (Some [l, r]) None None)"
    by (subst parseExpression.simps) (simp add: Let_def nf nr nl sel sub l r)
  from a b' i d mx t l r p show ?thesis by blast
qed

theorem parse_operator_split_witness:
  "findTopLevelOperator ''1+2-3'' = Some \<lparr>operator = ''+'', index = 1\<rparr> \<and>
   (\<exists>l r. parseExpression ''1'' = Inr l \<and> parseExpression ''2-3'' = Inr r \<and>
          parseExpression ''1+2-3'' = Inr (FormulaNode OperatorNode ''+'' (Some [l, r]) None None))"
proof -
  have tr: "trim ''1+2-3'' = ''1+2-3''" by code_simp
  have nf: "funcMatch (trim ''1+2-3'') = None" by code_simp
  have nr: "\<not> isCellReference (trim ''1+2-3'')" by code_simp
  have nl: "\<not> isLiteral (trim ''1+2-3'')" by code_simp
  have sel: "findTopLevelOperator (trim ''1+2-3'') = Some \<lparr>operator = ''+'', index = 1\<rparr>"
    by code_simp
  have scope: "\<forall>i\<in>set (topLevelIndices (trim ''1+2-3'')).
      \<not> matchesAt ''<='' (trim ''1+2-3'') i \<and> \<not> matchesAt ''>='' (trim ''1+2-3'') i"
    by code_simp
  from parse_operator_split[OF nf nr nl sel scope]
  obtain l r where
    "parseExpression (take (index \<lparr>operator = ''+'', index = 1\<rparr>) (trim ''1+2-3'')) = Inr l"
    "parseExpression (drop (index \<lparr>operator = ''+'', index = 1\<rparr> +
        length (operator \<lparr>operator = ''+'', index = 1\<rparr>)) (trim ''1+2-3'')) = Inr r"
    "parseExpression ''1+2-3'' =
       Inr (FormulaNode OperatorNode (operator \<lparr>operator = ''+'', index = 1\<rparr>) (Some [l, r])
              None None)"
    by blast
  then have "parseExpression ''1'' = Inr l \<and> parseExpression ''2-3'' = Inr r \<and>
      parseExpression ''1+2-3'' = Inr (FormulaNode OperatorNode ''+'' (Some [l, r]) None None)"
    by (simp add: tr)
  with sel tr show ?thesis by auto
qed

text \<open>
  In \<open>1+2-3\<close> the additive operators \<open>+\<close> and \<open>-\<close> both occur at top level and \<open>-\<close>
  is the rightmost. The selection by tiers picks \<open>-\<close> at index 3; the code picks \<open>+\<close>
  at index 1 and \<open>parse\<close> builds \<open>1 + (2 - 3)\<close>.
\<close>

theorem operator_tier_counterexample:
  "findTopLevelOperator ''1+2-3'' = Some \<lparr>operator = ''+'', index = 1\<rparr> \<and>
   spec_operatorChoice precedenceTiers ''1+2-3'' = Some \<lparr>operator = ''-'', index = 3\<rparr> \<and>
   parse ''=1+2-3'' =
     Inr (FormulaNode OperatorNode ''+''
            (Some [FormulaNode LiteralNode ''1'' None None None,
                   FormulaNode OperatorNode ''-''
                     (Some [FormulaNode LiteralNode ''2'' None None None,
                            FormulaNode LiteralNode ''3'' None None None])
                     None None])
            None None)"
  by code_simp

section \<open>Properties of the dependency graph\<close>

lemma map_get_map_set:
  "map_get (map_set m k v) k' = (if k' = k then Some v else map_get m k')"
  by (induction m) (auto simp: map_get_def)

lemma core_present:
  "map_get m k = Some e \<Longrightarrow> precedents e' = precedents e \<Longrightarrow> core (map_set m k e') = core m"
  by (induction m) (auto simp: map_get_def core_def)

lemma addDependents_core:
  "\<exists>ext. core (addDependents a ps m) = core m @ ext"
proof (induction ps arbitrary: m)
  case Nil
  show ?case by simp
next
  case (Cons p ps)
  show ?case
  proof (cases "map_get m p")
    case None
    let ?m' = "m @ [(p, \<lparr>precedents = [], dependents = [a], formula = []\<rparr>)]"
    from Cons[of ?m'] obtain ext where "core (addDependents a ps ?m') = core ?m' @ ext" by blast
    then show ?thesis by (simp add: None map_set_absent[OF None] core_def)
  next
    case (Some info)
    let ?m' = "map_set m p (info\<lparr>dependents := dependents info @ [a]\<rparr>)"
    from Cons[of ?m'] obtain ext where "core (addDependents a ps ?m') = core ?m' @ ext" by blast
    moreover have "core ?m' = core m" by (rule core_present[OF Some]) simp
    ultimately show ?thesis by (simp add: Some)
  qed
qed

lemma addDependents_position:
  assumes "j < length m"
  shows "j < length (addDependents a ps m) \<and>
         fst (addDependents a ps m ! j) = fst (m ! j) \<and>
         precedents (snd (addDependents a ps m ! j)) = precedents (snd (m ! j))"
proof -
  from addDependents_core[of a ps m] obtain ext where
    c: "core (addDependents a ps m) = core m @ ext" by blast
  have l: "length (core m) = length m" "length (core (addDependents a ps m)) = length (addDependents a ps m)"
    by (simp_all add: core_def)
  from c l have len: "j < length (addDependents a ps m)"
    using assms by (metis length_append trans_less_add1)
  from c have "core (addDependents a ps m) ! j = core m ! j"
    using assms l by (simp add: nth_append)
  then have "(\<lambda>(k, e). (k, precedents e)) (addDependents a ps m ! j) = (\<lambda>(k, e). (k, precedents e)) (m ! j)"
    using assms len by (simp add: core_def)
  then show ?thesis using len by (auto simp: case_prod_beta)
qed

lemma extends_refl: "extends e e"
  by (simp add: extends_def)

lemma extends_trans: "extends e e' \<Longrightarrow> extends e' e'' \<Longrightarrow> extends e e''"
  by (auto simp: extends_def)

lemma addDependents_mono:
  "map_get m k = Some e \<Longrightarrow> \<exists>e'. map_get (addDependents a ps m) k = Some e' \<and> extends e e'"
proof (induction ps arbitrary: m e)
  case Nil
  then show ?case by (auto simp: extends_refl)
next
  case (Cons p ps)
  let ?m' = "case map_get m p of
          Some info \<Rightarrow> map_set m p (info\<lparr>dependents := dependents info @ [a]\<rparr>)
        | None \<Rightarrow> map_set m p \<lparr>precedents = [], dependents = [a], formula = []\<rparr>"
  have "\<exists>e1. map_get ?m' k = Some e1 \<and> extends e e1"
    using Cons.prems by (auto simp: map_get_map_set extends_def split: option.splits)
  then obtain e1 where e1: "map_get ?m' k = Some e1" "extends e e1" by blast
  from Cons.IH[OF e1(1)] obtain e' where
    "map_get (addDependents a ps ?m') k = Some e'" "extends e1 e'" by blast
  with e1(2) show ?case by (auto intro: extends_trans)
qed

lemma addDependents_adds:
  "p \<in> set ps \<Longrightarrow> \<exists>e'. map_get (addDependents a ps m) p = Some e' \<and> a \<in> set (dependents e')"
proof (induction ps arbitrary: m)
  case Nil
  then show ?case by simp
next
  case (Cons q ps)
  let ?m' = "case map_get m q of
          Some info \<Rightarrow> map_set m q (info\<lparr>dependents := dependents info @ [a]\<rparr>)
        | None \<Rightarrow> map_set m q \<lparr>precedents = [], dependents = [a], formula = []\<rparr>"
  show ?case
  proof (cases "p = q")
    case True
    have "\<exists>e1. map_get ?m' p = Some e1 \<and> a \<in> set (dependents e1)"
      using True by (auto simp: map_get_map_set split: option.splits)
    then obtain e1 where e1: "map_get ?m' p = Some e1" "a \<in> set (dependents e1)" by blast
    from addDependents_mono[OF e1(1), of a ps] e1(2) show ?thesis
      by (auto simp: extends_def)
  next
    case False
    with Cons.prems have "p \<in> set ps" by simp
    from Cons.IH[OF this, of ?m'] show ?thesis by simp
  qed
qed

lemma addDependents_fresh:
  "map_get (addDependents a ps m) k = Some e' \<Longrightarrow> map_get m k = None \<Longrightarrow>
     precedents e' = [] \<and> formula e' = []"
proof (induction ps arbitrary: m)
  case Nil
  then show ?case by simp
next
  case (Cons q ps)
  let ?m' = "case map_get m q of
          Some info \<Rightarrow> map_set m q (info\<lparr>dependents := dependents info @ [a]\<rparr>)
        | None \<Rightarrow> map_set m q \<lparr>precedents = [], dependents = [a], formula = []\<rparr>"
  from Cons.prems(1) have r: "map_get (addDependents a ps ?m') k = Some e'" by simp
  show ?case
  proof (cases "map_get ?m' k")
    case None
    from Cons.IH[OF r None] show ?thesis .
  next
    case (Some e1)
    with Cons.prems(2) have leaf: "precedents e1 = [] \<and> formula e1 = []"
      by (auto simp: map_get_map_set split: option.splits if_splits)
    from addDependents_mono[OF Some, of a ps] r have "extends e1 e'" by simp
    with leaf show ?thesis by (simp add: extends_def)
  qed
qed


lemma linked_mono:
  assumes "linked m x ps"
  shows "linked (addDependents a qs m) x ps"
  unfolding linked_def
proof
  fix y assume "y \<in> set ps"
  with assms obtain ey where ey: "map_get m y = Some ey" "x \<in> set (dependents ey)"
    by (auto simp: linked_def)
  from addDependents_mono[OF ey(1), of a qs] ey(2)
  show "\<exists>ey. map_get (addDependents a qs m) y = Some ey \<and> x \<in> set (dependents ey)"
    by (auto simp: extends_def)
qed

lemma linked_upto_step:
  assumes inv: "linked_upto i m" and il: "i < length m" and e: "m ! i = (a, info)"
  shows "linked_upto (Suc i) (addDependents a (precedents info) m)"
  unfolding linked_upto_def
proof (intro allI impI)
  let ?m' = "addDependents a (precedents info) m"
  fix j assume j: "j < Suc i" "j < length ?m'"
  then have jl: "j < length m" using il by simp
  from addDependents_position[OF jl, of a "precedents info"]
  have pos: "fst (?m' ! j) = fst (m ! j)" "precedents (snd (?m' ! j)) = precedents (snd (m ! j))"
    by simp_all
  show "linked ?m' (fst (?m' ! j)) (precedents (snd (?m' ! j)))"
  proof (cases "j = i")
    case True
    have "linked ?m' a (precedents info)"
      unfolding linked_def using addDependents_adds[of _ "precedents info" a m] by blast
    with True e pos show ?thesis by simp
  next
    case False
    with j have "j < i" by simp
    with inv jl have "linked m (fst (m ! j)) (precedents (snd (m ! j)))"
      by (simp add: linked_upto_def)
    from linked_mono[OF this] pos show ?thesis by simp
  qed
qed

lemma addAllDependents_linked:
  "linked_upto i m \<Longrightarrow>
     linked_upto (length (addAllDependents i m)) (addAllDependents i m)"
proof (induction i m rule: addAllDependents.induct)
  case (1 i deps)
  show ?case
  proof (cases "i < length deps")
    case False
    with "1.prems" have "linked_upto (length deps) deps"
      by (simp add: linked_upto_def)
    with False show ?thesis by (subst (1 2) addAllDependents.simps) simp
  next
    case True
    obtain a info where e: "deps ! i = (a, info)" by (cases "deps ! i")
    from linked_upto_step[OF "1.prems" True e]
    have "linked_upto (i + 1) (addDependents a (precedents info) deps)" by simp
    from "1.IH"[OF True e[symmetric] this] True e show ?thesis
      by (subst (1 2) addAllDependents.simps) simp
  qed
qed

lemma addAllDependents_mono:
  "map_get m k = Some e \<Longrightarrow> \<exists>e'. map_get (addAllDependents i m) k = Some e' \<and> extends e e'"
proof (induction i m arbitrary: e rule: addAllDependents.induct)
  case (1 i deps)
  show ?case
  proof (cases "i < length deps")
    case False
    with "1.prems" show ?thesis
      by (subst addAllDependents.simps) (auto simp: extends_refl)
  next
    case True
    obtain a info where e: "deps ! i = (a, info)" by (cases "deps ! i")
    from addDependents_mono[OF "1.prems", of a "precedents info"]
    obtain e1 where e1: "map_get (addDependents a (precedents info) deps) k = Some e1"
      "extends e e1" by blast
    from "1.IH"[OF True e[symmetric] e1(1)] obtain e' where
      "map_get (addAllDependents (i + 1) (addDependents a (precedents info) deps)) k = Some e'"
      "extends e1 e'" by blast
    with e1(2) True e show ?thesis
      by (subst addAllDependents.simps) (auto intro: extends_trans)
  qed
qed

lemma addAllDependents_fresh:
  "map_get (addAllDependents i m) k = Some e' \<Longrightarrow> map_get m k = None \<Longrightarrow>
     precedents e' = [] \<and> formula e' = []"
proof (induction i m rule: addAllDependents.induct)
  case (1 i deps)
  show ?case
  proof (cases "i < length deps")
    case False
    with "1.prems" show ?thesis
      by (subst (asm) addAllDependents.simps) simp
  next
    case True
    obtain a info where e: "deps ! i = (a, info)" by (cases "deps ! i")
    let ?m' = "addDependents a (precedents info) deps"
    from "1.prems"(1) True e have r: "map_get (addAllDependents (i + 1) ?m') k = Some e'"
      by (subst (asm) addAllDependents.simps) simp
    show ?thesis
    proof (cases "map_get ?m' k")
      case None
      from "1.IH"[OF True e[symmetric] r None] show ?thesis .
    next
      case (Some e1)
      from addDependents_fresh[OF Some "1.prems"(2)]
      have leaf: "precedents e1 = [] \<and> formula e1 = []" .
      from addAllDependents_mono[OF Some, of "i + 1"] r have "extends e1 e'" by simp
      with leaf show ?thesis by (simp add: extends_def)
    qed
  qed
qed

text \<open>
  Claim C1. The graph that \<open>buildDependencyGraph\<close> returns is symmetric: when \<open>y\<close> is
  among the precedents of the entry of \<open>x\<close>, the graph has an entry for \<open>y\<close> and \<open>x\<close> is
  among its dependents. When \<open>y\<close> is not the key of a scanned formula cell, its entry has
  an empty formula text and no precedents.
\<close>

theorem buildDependencyGraph_symmetric:
  assumes "buildDependencyGraph host scope = Inr g"
      and "map_get g x = Some ex"
      and "y \<in> set (precedents ex)"
  shows "\<exists>ey. map_get g y = Some ey \<and> x \<in> set (dependents ey) \<and>
           (\<forall>g0. scanFormulas host scope = Inr g0 \<and> map_get g0 y = None \<longrightarrow>
              formula ey = [] \<and> precedents ey = [])"
proof -
  from assms(1) obtain g0 where g0: "scanFormulas host scope = Inr g0"
    and g: "g = addAllDependents 0 g0"
    by (auto simp: buildDependencyGraph_def split: sum.splits)
  have "linked_upto 0 g0" by (simp add: linked_upto_def)
  from addAllDependents_linked[OF this] g have inv: "linked_upto (length g) g" by simp
  from assms(2) have "(x, ex) \<in> set g" by (simp add: map_get_def map_of_SomeD)
  then obtain j where j: "j < length g" "g ! j = (x, ex)" by (auto simp: in_set_conv_nth)
  with inv have "linked g x (precedents ex)" by (auto simp: linked_upto_def)
  with assms(3) obtain ey where ey: "map_get g y = Some ey" "x \<in> set (dependents ey)"
    by (auto simp: linked_def)
  have "\<forall>g0'. scanFormulas host scope = Inr g0' \<and> map_get g0' y = None \<longrightarrow>
      formula ey = [] \<and> precedents ey = []"
    using addAllDependents_fresh[of 0 g0 y ey] ey(1) g g0 by auto
  with ey show ?thesis by blast
qed

theorem buildDependencyGraph_symmetric_witness:
  "buildDependencyGraph exampleHost exampleScope = Inr exampleGraph \<and>
   map_get exampleGraph ''S!B1'' =
     Some \<lparr>precedents = [''S!$A$1''], dependents = [], formula = ''=$A$1''\<rparr> \<and>
   (\<exists>ey. map_get exampleGraph ''S!$A$1'' = Some ey \<and> ''S!B1'' \<in> set (dependents ey) \<and>
         formula ey = [] \<and> precedents ey = [])"
proof -
  have b: "buildDependencyGraph exampleHost exampleScope = Inr exampleGraph" by code_simp
  have x: "map_get exampleGraph ''S!B1'' =
     Some \<lparr>precedents = [''S!$A$1''], dependents = [], formula = ''=$A$1''\<rparr>" by code_simp
  have y: "''S!$A$1'' \<in> set (precedents
     \<lparr>precedents = [''S!$A$1''], dependents = [], formula = ''=$A$1''\<rparr>)" by simp
  have s: "scanFormulas exampleHost exampleScope =
     Inr [(''S!B1'', \<lparr>precedents = [''S!$A$1''], dependents = [], formula = ''=$A$1''\<rparr>),
          (''S!B2'', \<lparr>precedents = [''S!A1''], dependents = [], formula = ''=A1''\<rparr>)]"
    by code_simp
  have n: "map_get
     [(''S!B1'', \<lparr>precedents = [''S!$A$1''], dependents = [], formula = ''=$A$1''\<rparr>),
      (''S!B2'', \<lparr>precedents = [''S!A1''], dependents = [], formula = ''=A1''\<rparr>)]
     ''S!$A$1'' = None" by code_simp
  from buildDependencyGraph_symmetric[OF b x y] s n
  have "\<exists>ey. map_get exampleGraph ''S!$A$1'' = Some ey \<and> ''S!B1'' \<in> set (dependents ey) \<and>
         formula ey = [] \<and> precedents ey = []"
    by blast
  with b x show ?thesis by blast
qed

section \<open>Properties of the graph keys\<close>

text \<open>
  Every group that a match captures is a part of the text that was searched, and every
  match of the reference pattern captures a third group that is not empty.
\<close>

lemma part_of_iff: "part_of g s \<longleftrightarrow> (\<exists>a b. s = a @ g @ b)"
proof
  assume "part_of g s"
  then obtain i where i: "i \<le> length s" "take (length g) (drop i s) = g"
    by (auto simp: part_of_def list_ex_iff less_Suc_eq_le simp del: upt_Suc)
  have "s = take i s @ drop i s" by simp
  also have "drop i s = take (length g) (drop i s) @ drop (length g) (drop i s)"
    by (rule append_take_drop_id[symmetric])
  finally have "s = take i s @ g @ drop (length g) (drop i s)" using i(2) by simp
  then show "\<exists>a b. s = a @ g @ b" by blast
next
  assume "\<exists>a b. s = a @ g @ b"
  then obtain a b where s: "s = a @ g @ b" by blast
  have "length a \<le> length s" "take (length g) (drop (length a) s) = g"
    by (simp_all add: s)
  then show "part_of g s"
    unfolding part_of_def list_ex_iff
    by (intro bexI[of _ "length a"]) (auto simp del: upt_Suc)
qed

lemma part_of_append: "part_of g s \<Longrightarrow> part_of g (u @ s)"
  unfolding part_of_iff by (metis append.assoc)

lemma part_of_prefix: "part_of u (u @ s)"
  unfolding part_of_iff by (metis append_Nil)

lemma inv_step_refl: "inv_step st st"
  by (cases st) (auto simp: inv_step_def)

lemma inv_step_trans:
  assumes "inv_step a b" and "inv_step b c"
  shows "inv_step a c"
proof -
  obtain i s ca where a: "a = (i, s, ca)" by (cases a)
  obtain j t cb where b: "b = (j, t, cb)" by (cases b)
  obtain k w cc where c: "c = (k, w, cc)" by (cases c)
  from assms(1) obtain u where u: "s = u @ t" "j = i + length u"
    and cu: "\<And>n g. (n, g) \<in> set cb \<Longrightarrow> (n, g) \<in> set ca \<or> part_of g s"
    by (auto simp: inv_step_def a b)
  from assms(2) obtain v where v: "t = v @ w" "k = j + length v"
    and cv: "\<And>n g. (n, g) \<in> set cc \<Longrightarrow> (n, g) \<in> set cb \<or> part_of g t"
    by (auto simp: inv_step_def b c)
  have 1: "s = (u @ v) @ w \<and> k = i + length (u @ v)" using u v by simp
  have 2: "(n, g) \<in> set ca \<or> part_of g s" if "(n, g) \<in> set cc" for n g
    using cv[OF that] cu[of n g] part_of_append[of g t u] u(1) by blast
  from 1 2 show ?thesis unfolding inv_step_def a c by blast
qed

lemma inv_step_drop:
  "k \<le> length s \<Longrightarrow> inv_step (i, s, c) (i + k, drop k s, c)"
  unfolding inv_step_def by (auto intro!: exI[of _ "take k s"])

lemma rmatch_inv: "st' \<in> set (rmatch r st) \<Longrightarrow> inv_step st st'"
proof (induction r arbitrary: st st')
  case Eps
  then show ?case by (simp add: inv_step_refl)
next
  case (One p)
  obtain i s c where st: "st = (i, s, c)" by (cases st)
  from One show ?case
    using inv_step_drop[of 1 s i c]
    by (cases s) (auto simp: st split: if_splits)
next
  case (Many0 p)
  obtain i s c where st: "st = (i, s, c)" by (cases st)
  from Many0 obtain k where "k \<le> length (takeWhile p s)" "st' = (i + k, drop k s, c)"
    by (auto simp: st)
  then show ?case
    using inv_step_drop[of k s i c] length_takeWhile_le[of p s] by (simp add: st)
next
  case (Many1 p)
  obtain i s c where st: "st = (i, s, c)" by (cases st)
  from Many1 obtain k where "k \<le> length (takeWhile p s)" "st' = (i + k, drop k s, c)"
    by (auto simp: st)
  then show ?case
    using inv_step_drop[of k s i c] length_takeWhile_le[of p s] by (simp add: st)
next
  case (Lazy0 p)
  obtain i s c where st: "st = (i, s, c)" by (cases st)
  from Lazy0 obtain k where "k \<le> length (takeWhile p s)" "st' = (i + k, drop k s, c)"
    by (auto simp: st)
  then show ?case
    using inv_step_drop[of k s i c] length_takeWhile_le[of p s] by (simp add: st)
next
  case (Opt r)
  from Opt.prems have "st' \<in> set (rmatch r st) \<or> st' = st" by auto
  then show ?case using Opt.IH inv_step_refl by blast
next
  case (Seq r1 r2)
  from Seq.prems obtain m where "m \<in> set (rmatch r1 st)" "st' \<in> set (rmatch r2 m)"
    by auto
  then show ?case using Seq.IH inv_step_trans by blast
next
  case (Alt r1 r2)
  from Alt.prems have "st' \<in> set (rmatch r1 st) \<or> st' \<in> set (rmatch r2 st)" by auto
  then show ?case using Alt.IH by blast
next
  case (Grp n r)
  obtain i s c where st: "st = (i, s, c)" by (cases st)
  from Grp.prems obtain j s' c' where m: "(j, s', c') \<in> set (rmatch r (i, s, c))"
    and st': "st' = (j, s', (n, take (j - i) s) # c')"
    by (auto simp: st)
  from Grp.IH[OF m] obtain u where u: "s = u @ s'" "j = i + length u"
    and c: "\<forall>n g. (n, g) \<in> set c' \<longrightarrow> (n, g) \<in> set c \<or> part_of g s"
    by (auto simp: inv_step_def)
  have "take (j - i) s = u" using u by simp
  moreover have "part_of u s" using u(1) part_of_prefix by simp
  ultimately show ?case
    using u c by (auto simp: st st' inv_step_def)
next
  case Bol
  then show ?case by (cases st) (auto simp: inv_step_refl split: if_splits)
next
  case Eol
  then show ?case by (cases st) (auto simp: inv_step_refl split: if_splits)
qed

lemma rmatch_caps:
  assumes "(j, s', c') \<in> set (rmatch r (i, s, []))" and "(n, g) \<in> set c'"
  shows "part_of g s"
  using rmatch_inv[OF assms(1)] assms(2) by (auto simp: inv_step_def)

lemma rmatch_suffix:
  assumes "(j, s', c') \<in> set (rmatch r (i, s, c))"
  shows "\<exists>u. s = u @ s'"
  using rmatch_inv[OF assms] by (auto simp: inv_step_def)


lemma first_Eps: "first_match Eps st = Some st"
  by (simp add: first_match_def)

lemma first_Seq:
  "first_match r1 st = Some x \<Longrightarrow> first_match r2 x = Some y \<Longrightarrow> first_match (Seq r1 r2) st = Some y"
  by (auto simp: first_match_def split: list.splits)

lemma first_Opt_take: "first_match r st = Some x \<Longrightarrow> first_match (Opt r) st = Some x"
  by (auto simp: first_match_def split: list.splits)

lemma first_Opt_skip: "rmatch r st = [] \<Longrightarrow> first_match (Opt r) st = Some st"
  by (simp add: first_match_def)

lemma first_Grp:
  "first_match r (i, s, c) = Some (j, s', c') \<Longrightarrow>
   first_match (Grp n r) (i, s, c) = Some (j, s', (n, take (j - i) s) # c')"
  by (auto simp: first_match_def split: list.splits)

lemma first_Many1:
  assumes "takeWhile p s = xs" "xs \<noteq> []"
  shows "first_match (Many1 p) (i, s, c) = Some (i + length xs, drop (length xs) s, c)"
proof -
  from rmatch_Many1_head[OF assms, of i c]
  obtain t where "rmatch (Many1 p) (i, s, c) = (i + length xs, drop (length xs) s, c) # t"
    by blast
  then show ?thesis by (simp only: first_match_def list.case)
qed

lemma Seqs_Nil: "Seqs [] = Eps"
  by (simp add: Seqs_def)

lemma Seqs_Cons: "Seqs (r # rs) = Seq r (Seqs rs)"
  by (simp add: Seqs_def)

lemma rmatch_Lit_fail: "s = [] \<or> hd s \<noteq> ch \<Longrightarrow> rmatch (Lit ch) (i, s, c) = []"
  by (cases s) (auto simp: Lit_def)

lemma first_Opt_Lit:
  assumes "d = [] \<or> d = [ch]" and "s = [] \<or> hd s \<noteq> ch"
  shows "first_match (Opt (Lit ch)) (i, d @ s, c) = Some (i + length d, s, c)"
proof (cases "d = []")
  case True
  with assms(2) show ?thesis by (simp add: first_Opt_skip rmatch_Lit_fail)
next
  case False
  with assms(1) have d: "d = [ch]" by simp
  show ?thesis by (simp add: d first_match_def Lit_def)
qed

lemma rmatch_Seq_fail: "rmatch r1 st = [] \<Longrightarrow> rmatch (Seq r1 r2) st = []"
  by simp

lemma rmatch_Grp_fail: "rmatch r (i, s, c) = [] \<Longrightarrow> rmatch (Grp n r) (i, s, c) = []"
  by simp

lemma rmatch_word_bang_fail:
  assumes "CHR ''!'' \<notin> set s"
  shows "rmatch (Seq (Many1 p) (Seq (Lit CHR ''!'') r)) (i, s, c) = []"
proof -
  have "rmatch (Seq (Lit CHR ''!'') r) (i + k, drop k s, c) = []" for k
  proof -
    have "drop k s = [] \<or> hd (drop k s) \<noteq> CHR ''!''"
      using assms by (metis hd_in_set in_set_dropD)
    then show ?thesis by (simp only: rmatch_Seq_fail[OF rmatch_Lit_fail])
  qed
  then show ?thesis by (simp del: rmatch.simps(7) add: rmatch.simps(7)[of "Many1 p"] )
qed

lemma dollar_class: "\<not> is_letter CHR ''$''" "\<not> is_digit CHR ''$''"
  by (simp_all add: is_letter_def is_upper_def is_lower_def is_digit_def)

lemma first_cellPattern:
  assumes ls: "ls \<noteq> []" "\<forall>c\<in>set ls. is_letter c"
      and ds: "ds \<noteq> []" "\<forall>c\<in>set ds. is_digit c"
      and d1: "d1 = [] \<or> d1 = ''$''" and d2: "d2 = [] \<or> d2 = ''$''"
  shows "first_match cellPattern (i, d1 @ ls @ d2 @ ds, c) =
           Some (i + length (d1 @ ls @ d2 @ ds), [], c)"
proof -
  have hl: "hd (ls @ d2 @ ds) \<noteq> CHR ''$''"
    using ls dollar_class(1) by (cases ls) auto
  have hd': "hd ds \<noteq> CHR ''$''"
    using ds dollar_class(2) by (cases ds) auto
  have nl: "d2 @ ds = [] \<or> \<not> is_letter (hd (d2 @ ds))"
    using d2 ds dollar_class(1) by (cases ds) (auto simp: digit_not_letter)
  have s1: "first_match (Opt (Lit CHR ''$'')) (i, d1 @ ls @ d2 @ ds, c) =
      Some (i + length d1, ls @ d2 @ ds, c)"
    using d1 hl by (intro first_Opt_Lit) auto
  have tl: "takeWhile is_letter (ls @ d2 @ ds) = ls"
    using ls(2) nl by (rule takeWhile_all)
  have s2: "first_match (Many1 is_letter) (i + length d1, ls @ d2 @ ds, c) =
      Some (i + length d1 + length ls, d2 @ ds, c)"
    using first_Many1[OF tl ls(1), of "i + length d1" c] by simp
  have s3: "first_match (Opt (Lit CHR ''$'')) (i + length d1 + length ls, d2 @ ds, c) =
      Some (i + length d1 + length ls + length d2, ds, c)"
    using d2 hd' by (intro first_Opt_Lit) auto
  have td: "takeWhile is_digit ds = ds" using ds(2) by simp
  have s4: "first_match (Many1 is_digit) (i + length d1 + length ls + length d2, ds, c) =
      Some (i + length d1 + length ls + length d2 + length ds, [], c)"
    using first_Many1[OF td ds(1), of "i + length d1 + length ls + length d2" c] by simp
  have "first_match cellPattern (i, d1 @ ls @ d2 @ ds, c) =
      Some (i + length d1 + length ls + length d2 + length ds, [], c)"
    unfolding cellPattern_def Seqs_Cons Seqs_Nil
    by (intro first_Seq[OF s1] first_Seq[OF s2] first_Seq[OF s3] first_Seq[OF s4] first_Eps)
  then show ?thesis by (simp add: add.assoc)
qed

lemma first_refPattern:
  assumes ls: "ls \<noteq> []" "\<forall>c\<in>set ls. is_letter c"
      and ds: "ds \<noteq> []" "\<forall>c\<in>set ds. is_digit c"
      and d1: "d1 = [] \<or> d1 = ''$''" and d2: "d2 = [] \<or> d2 = ''$''"
  shows "first_match refPattern (i, d1 @ ls @ d2 @ ds, []) =
           Some (i + length (d1 @ ls @ d2 @ ds), [], [(3, d1 @ ls @ d2 @ ds)])"
proof -
  let ?ref = "d1 @ ls @ d2 @ ds"
  have chars: "\<And>x. x \<in> set ?ref \<Longrightarrow> x = CHR ''$'' \<or> is_letter x \<or> is_digit x"
    using ls(2) ds(2) d1 d2 by auto
  have nb: "CHR ''!'' \<notin> set ?ref"
    using chars[of "CHR ''!''"] by (auto simp: is_letter_def is_upper_def is_lower_def is_digit_def)
  have ne: "?ref \<noteq> []" using ls(1) by simp
  have nk: "hd ?ref \<noteq> CHR ''[''"
    using chars[of "hd ?ref"] hd_in_set[OF ne]
    by (auto simp: is_letter_def is_upper_def is_lower_def is_digit_def)
  have g1: "first_match (Opt (Grp 1 (Seqs [Lit CHR ''['', Lazy0 is_dot, Lit CHR '']'']))) (i, ?ref, []) =
      Some (i, ?ref, [])"
    unfolding Seqs_Cons Seqs_Nil
    using nk by (intro first_Opt_skip rmatch_Grp_fail rmatch_Seq_fail rmatch_Lit_fail) simp
  have g2: "first_match (Opt (Grp 2 (Seqs [Many1 is_word, Lit CHR ''!'']))) (i, ?ref, []) =
      Some (i, ?ref, [])"
    unfolding Seqs_Cons Seqs_Nil
    by (intro first_Opt_skip rmatch_Grp_fail rmatch_word_bang_fail nb)
  have c1: "first_match cellPattern (i, ?ref, []) = Some (i + length ?ref, [], [])"
    by (rule first_cellPattern[OF assms])
  have c2: "first_match (Opt (Seq (Lit CHR '':'') (Seq cellPattern Eps))) (i + length ?ref, [], []) =
      Some (i + length ?ref, [], [])"
    by (intro first_Opt_skip rmatch_Seq_fail rmatch_Lit_fail) simp
  have g3: "first_match (Grp 3 (Seqs [cellPattern, Opt (Seqs [Lit CHR '':'', cellPattern])])) (i, ?ref, []) =
      Some (i + length ?ref, [], [(3, take (i + length ?ref - i) ?ref)])"
    apply (rule first_Grp)
    apply (simp only: Seqs_Cons Seqs_Nil)
    apply (intro first_Seq[OF c1] first_Seq[OF c2] first_Eps)
    done
  have "first_match refPattern (i, ?ref, []) =
      Some (i + length ?ref, [], [(3, take (i + length ?ref - i) ?ref)])"
    apply (simp only: refPattern_def Seqs_Cons Seqs_Nil)
    apply (intro first_Seq[OF g1[unfolded Seqs_Cons Seqs_Nil]]
        first_Seq[OF g2[unfolded Seqs_Cons Seqs_Nil]]
        first_Seq[OF g3[unfolded Seqs_Cons Seqs_Nil]] first_Eps)
    done
  then show ?thesis by simp
qed

lemma rmatch_refPattern_equals: "rmatch refPattern (i, CHR ''='' # s, []) = []"
  by (simp add: refPattern_def cellPattern_def Seqs_def Lit_def is_word_def is_letter_def
      is_upper_def is_lower_def is_digit_def)

lemma rmatch_refPattern_end: "rmatch refPattern (i, [], []) = []"
  by (simp add: refPattern_def cellPattern_def Seqs_def Lit_def)

lemma extractPrecedents_single:
  assumes ls: "ls \<noteq> []" "\<forall>c\<in>set ls. is_letter c"
      and ds: "ds \<noteq> []" "\<forall>c\<in>set ds. is_digit c"
      and d1: "d1 = [] \<or> d1 = ''$''" and d2: "d2 = [] \<or> d2 = ''$''"
  shows "extractPrecedents (''='' @ d1 @ ls @ d2 @ ds) sheet = [sheet @ ''!'' @ d1 @ ls @ d2 @ ds]"
proof -
  let ?ref = "d1 @ ls @ d2 @ ds"
  have ne: "?ref \<noteq> []" using ls(1) by simp
  from first_refPattern[OF assms, of 1]
  obtain t where m: "rmatch refPattern (1, ?ref, []) = (1 + length ?ref, [], [(3, ?ref)]) # t"
    by (auto simp: first_match_def split: list.splits)
  have s1: "rx_segments refPattern 1 ?ref = [Inr (?ref, [(3, ?ref)])]"
    apply (subst rx_segments.simps)
    apply (simp only: m list.case prod.case)
    apply (subst rx_segments.simps)
    using ne apply (simp add: rmatch_refPattern_end del: append_assoc)
    done
  have s0: "rx_segments refPattern 0 (CHR ''='' # ?ref) = [Inl CHR ''='', Inr (?ref, [(3, ?ref)])]"
    apply (subst rx_segments.simps)
    apply (simp only: rmatch_refPattern_equals list.case)
    using s1 apply simp
    done
  show ?thesis
    using s0 by (simp add: extractPrecedents_def precedentKey_def group_def)
qed

lemma numberToColumn_loop_upper:
  "\<forall>x\<in>set acc. is_upper x \<Longrightarrow> \<forall>x\<in>set (numberToColumn_loop n acc). is_upper x"
proof (induction n acc rule: numberToColumn_loop.induct)
  case (1 num column)
  show ?case
  proof (cases "num > 0")
    case True
    have u: "is_upper (char_of (65 + (num - 1) mod 26))"
      by (simp add: is_upper_def of_char_of)
    from 1(1)[OF True] 1(2) u True show ?thesis
      by (subst numberToColumn_loop.simps) simp
  next
    case False
    with 1(2) show ?thesis by (subst numberToColumn_loop.simps) simp
  qed
qed

lemma getAddress_no_dollar: "CHR ''$'' \<notin> set (getAddress r c)"
proof -
  have "\<forall>x\<in>set (numberToColumn c). is_upper x"
    unfolding numberToColumn_def by (rule numberToColumn_loop_upper) simp
  moreover have "\<forall>x\<in>set (num_to_string r). is_digit x"
    by (simp add: num_to_string_digits)
  ultimately have "\<forall>x\<in>set (getAddress r c). is_upper x \<or> is_digit x"
    by (auto simp: getAddress_def)
  then show ?thesis by (auto simp: is_upper_def is_digit_def)
qed


lemma rx_segments_match:
  "Inr (t, c) \<in> set (rx_segments r i s) \<Longrightarrow>
   \<exists>u s0 i0 j s'. s = u @ s0 \<and> (j, s', c) \<in> set (rmatch r (i0, s0, []))"
proof (induction r i s rule: rx_segments.induct)
  case (1 r i s)
  have later: "\<exists>u s0 i0 j s'. s = u @ s0 \<and> (j, s', c) \<in> set (rmatch r (i0, s0, []))"
    if "\<exists>u s0 i0 j s'. w = u @ s0 \<and> (j, s', c) \<in> set (rmatch r (i0, s0, []))" and "s = v @ w"
    for v w
  proof -
    from that(1) obtain u s0 i0 j s' where "w = u @ s0" "(j, s', c) \<in> set (rmatch r (i0, s0, []))"
      by blast
    with that(2) have "s = (v @ u) @ s0 \<and> (j, s', c) \<in> set (rmatch r (i0, s0, []))" by simp
    then show ?thesis by blast
  qed
  show ?case
  proof (cases "rmatch r (i, s, [])")
    case Nil
    show ?thesis
    proof (cases s)
      case Nil': Nil
      with Nil "1.prems"(1) show ?thesis by (subst (asm) rx_segments.simps) simp
    next
      case (Cons x xs)
      from "1.prems"(1) Nil Cons have "Inr (t, c) \<in> set (rx_segments r (Suc i) xs)"
        by (subst (asm) rx_segments.simps) simp
      from "1.IH"(1)[OF Nil Cons this] show ?thesis
        by (rule later[of xs "[x]"]) (simp add: Cons)
    qed
  next
    case (Cons m ms)
    obtain j s' c' where m: "m = (j, s', c')" by (cases m)
    have mem: "(j, s', c') \<in> set (rmatch r (i, s, []))" by (simp add: Cons m)
    from rmatch_suffix[OF mem] obtain u where u: "s = u @ s'" by blast
    have here: ?thesis if "c = c'"
    proof -
      from mem that have "s = [] @ s \<and> (j, s', c) \<in> set (rmatch r (i, s, []))" by simp
      then show ?thesis by blast
    qed
    show ?thesis
    proof (cases "length s' < length s")
      case True
      from "1.prems"(1) Cons m True
      have "(t, c) = (take (j - i) s, c') \<or> Inr (t, c) \<in> set (rx_segments r j s')"
        by (subst (asm) rx_segments.simps) auto
      then show ?thesis
      proof
        assume "(t, c) = (take (j - i) s, c')"
        then show ?thesis using here by simp
      next
        assume a: "Inr (t, c) \<in> set (rx_segments r j s')"
        show ?thesis
          by (rule later[OF "1.IH"(2)[OF Cons m[symmetric] refl True a] u])
      qed
    next
      case False
      show ?thesis
      proof (cases s)
        case Nil
        with "1.prems"(1) Cons m False have "(t, c) = ([], c')"
          by (subst (asm) rx_segments.simps) auto
        then show ?thesis using here by simp
      next
        case Cons2: (Cons x xs)
        from "1.prems"(1) Cons m False Cons2
        have "(t, c) = ([], c') \<or> Inr (t, c) \<in> set (rx_segments r (Suc i) xs)"
          by (subst (asm) rx_segments.simps) auto
        then show ?thesis
        proof
          assume "(t, c) = ([], c')"
          then show ?thesis using here by simp
        next
          assume a: "Inr (t, c) \<in> set (rx_segments r (Suc i) xs)"
          show ?thesis
            by (rule later[OF "1.IH"(3)[OF Cons m[symmetric] refl False Cons2 a], of "[x]"])
               (simp add: Cons2)
        qed
      qed
    qed
  qed
qed

lemma inv_step_le: "inv_step (i, s, c) (j, s', c') \<Longrightarrow> i \<le> j \<and> length s = length s' + (j - i)"
  by (auto simp: inv_step_def)

lemma rmatch_Many1_progress:
  "(j, s', c') \<in> set (rmatch (Many1 p) (i, s, c)) \<Longrightarrow> i < j"
  by auto

lemma rmatch_Seq_mem:
  "st' \<in> set (rmatch (Seq r1 r2) st) \<longleftrightarrow> (\<exists>m\<in>set (rmatch r1 st). st' \<in> set (rmatch r2 m))"
  by simp

lemma rmatch_cellPattern_progress:
  assumes "(j, s', c') \<in> set (rmatch cellPattern (i, s, c))"
  shows "i < j"
proof -
  let ?rest = "Seq (Opt (Lit CHR ''$'')) (Seq (Many1 is_digit) Eps)"
  from assms have "(j, s', c') \<in>
      set (rmatch (Seq (Opt (Lit CHR ''$'')) (Seq (Many1 is_letter) ?rest)) (i, s, c))"
    unfolding cellPattern_def Seqs_Cons Seqs_Nil .
  then obtain m1 where m1: "m1 \<in> set (rmatch (Opt (Lit CHR ''$'')) (i, s, c))"
    and r1: "(j, s', c') \<in> set (rmatch (Seq (Many1 is_letter) ?rest) m1)"
    unfolding rmatch_Seq_mem[of _ "Opt (Lit CHR ''$'')"] by blast
  from r1 obtain m2 where m2: "m2 \<in> set (rmatch (Many1 is_letter) m1)"
    and m3: "(j, s', c') \<in> set (rmatch ?rest m2)"
    unfolding rmatch_Seq_mem[of _ "Many1 is_letter"] by blast
  obtain i1 s1 c1 where e1: "m1 = (i1, s1, c1)" by (cases m1)
  obtain i2 s2 c2 where e2: "m2 = (i2, s2, c2)" by (cases m2)
  from rmatch_inv[OF m1] have "i \<le> i1" by (auto simp: e1 dest: inv_step_le)
  moreover from m2 have "i1 < i2" unfolding e1 e2 by (rule rmatch_Many1_progress)
  moreover from rmatch_inv[OF m3] have "i2 \<le> j" by (auto simp: e2 dest: inv_step_le)
  ultimately show ?thesis by simp
qed

lemma rmatch_refPattern_group3:
  assumes "(j, s', c') \<in> set (rmatch refPattern (i, s, []))"
  shows "\<exists>g. group c' 3 = Some g \<and> g \<noteq> [] \<and> part_of g s"
proof -
  let ?X = "Seq cellPattern (Seq (Opt (Seq (Lit CHR '':'') (Seq cellPattern Eps))) Eps)"
  from assms obtain m1 m2 where
    m1: "m1 \<in> set (rmatch (Opt (Grp 1 (Seq (Lit CHR ''['') (Seq (Lazy0 is_dot) (Seq (Lit CHR '']'') Eps))))) (i, s, []))"
    and m2: "m2 \<in> set (rmatch (Opt (Grp 2 (Seq (Many1 is_word) (Seq (Lit CHR ''!'') Eps)))) m1)"
    and m3: "(j, s', c') \<in> set (rmatch (Grp 3 ?X) m2)"
    unfolding refPattern_def Seqs_Cons Seqs_Nil
    by (auto simp del: rmatch.simps(6,9))
  obtain i2 s2 c2 where e2: "m2 = (i2, s2, c2)" by (cases m2)
  from m3 obtain cx where x: "(j, s', cx) \<in> set (rmatch ?X (i2, s2, c2))"
    and c': "c' = (3, take (j - i2) s2) # cx"
    by (auto simp: e2 simp del: rmatch.simps(7))
  from x obtain m4 where m4: "m4 \<in> set (rmatch cellPattern (i2, s2, c2))"
    and m5: "(j, s', cx) \<in> set (rmatch (Seq (Opt (Seq (Lit CHR '':'') (Seq cellPattern Eps))) Eps) m4)"
    by (auto simp del: rmatch.simps(6))
  obtain i4 s4 c4 where e4: "m4 = (i4, s4, c4)" by (cases m4)
  from m4 have "i2 < i4" unfolding e4 by (rule rmatch_cellPattern_progress)
  moreover from rmatch_inv[OF m5] have "i4 \<le> j" by (auto simp: e4 dest: inv_step_le)
  ultimately have lt: "i2 < j" by simp
  from inv_step_le[OF rmatch_inv[OF x]] have "length s2 = length s' + (j - i2)" by simp
  with lt have ne: "take (j - i2) s2 \<noteq> []" by auto
  have "(3, take (j - i2) s2) \<in> set c'" by (simp add: c')
  from rmatch_caps[OF assms this] have "part_of (take (j - i2) s2) s" .
  with ne show ?thesis by (simp add: c' group_def)
qed

lemma rmatch_caps2:
  assumes "(j, s', c') \<in> set (rmatch r (i, s, []))" and "group c' n = Some g"
  shows "part_of g s"
proof -
  from assms(2) have "(n, g) \<in> set c'" by (auto simp: group_def dest: map_of_SomeD)
  from rmatch_caps[OF assms(1) this] show ?thesis .
qed

lemma extractPrecedents_keys:
  assumes "k \<in> set (extractPrecedents f sheet)"
  shows "\<exists>sh ref. k = sh @ ''!'' @ ref \<and> ref \<noteq> [] \<and> part_of ref f"
proof -
  from assms obtain t c where seg: "Inr (t, c) \<in> set (rx_segments refPattern 0 f)"
    and k: "k = precedentKey sheet c"
    by (auto simp: extractPrecedents_def split: sum.splits)
  from rx_segments_match[OF seg] obtain u s0 i0 j s' where
    f: "f = u @ s0" and m: "(j, s', c) \<in> set (rmatch refPattern (i0, s0, []))" by blast
  from rmatch_refPattern_group3[OF m] obtain g where
    g: "group c 3 = Some g" "g \<noteq> []" "part_of g s0" by blast
  from g(3) have "part_of g f" unfolding f by (rule part_of_append)
  with g(1,2) k show ?thesis by (auto simp: precedentKey_def Let_def)
qed

lemma map_set_set: "set (map_set m k v) \<subseteq> set m \<union> {(k, v)}"
  by (induction m) (auto split: if_splits)

lemma fold_sum_inv:
  assumes "\<And>x s s'. x \<in> set xs \<Longrightarrow> P s \<Longrightarrow> f x s = Inr s' \<Longrightarrow> P s'"
  shows "P s \<Longrightarrow> fold_sum f xs s = Inr s' \<Longrightarrow> P s'"
  using assms
proof (induction xs arbitrary: s)
  case Nil
  then show ?case by simp
next
  case (Cons x xs)
  from Cons.prems(2) obtain s1 where s1: "f x s = Inr s1" "fold_sum f xs s1 = Inr s'"
    by (auto split: sum.splits)
  from Cons.prems(3)[OF _ Cons.prems(1) s1(1)] have p1: "P s1" by simp
  show ?case
    by (rule Cons.IH[OF p1 s1(2)]) (rule Cons.prems(3), simp_all)
qed

lemma scanCell_own_key:
  assumes "\<forall>ke\<in>set deps. own_key sheets ke" and "sheet \<in> sheets"
      and "scanCell sheet base grid r c deps = Inr deps'"
  shows "\<forall>ke\<in>set deps'. own_key sheets ke"
proof (cases "deps' = deps")
  case True
  with assms(1) show ?thesis by simp
next
  case False
  with assms(3) obtain f where
    d: "deps' = map_set deps (sheet @ ''!'' @ getAddress (row base + r) (col base + c))
          \<lparr>precedents = extractPrecedents f sheet, dependents = [], formula = f\<rparr>"
    by (auto simp: scanCell_def Let_def split: option.splits if_splits)
  have "own_key sheets (sheet @ ''!'' @ getAddress (row base + r) (col base + c),
          \<lparr>precedents = extractPrecedents f sheet, dependents = [], formula = f\<rparr>)"
    unfolding own_key_def
    using getAddress_no_dollar[of "row base + r" "col base + c"] assms(2) by auto
  with assms(1) map_set_set[of deps] show ?thesis unfolding d by blast
qed

lemma scanRows_own_key:
  assumes "\<forall>ke\<in>set deps. own_key sheets ke" and "sheet \<in> sheets"
      and "fold_sum (\<lambda>r. fold_sum (scanCell sheet base grid r) cols) rows deps = Inr deps'"
  shows "\<forall>ke\<in>set deps'. own_key sheets ke"
proof -
  have inner: "\<forall>ke\<in>set s'. own_key sheets ke"
    if "\<forall>ke\<in>set s. own_key sheets ke"
      and "fold_sum (scanCell sheet base grid r) cols s = Inr s'"
    for r s s'
    using that(1,2)
    by (rule fold_sum_inv[where P = "\<lambda>s. \<forall>ke\<in>set s. own_key sheets ke", rotated])
       (rule scanCell_own_key[OF _ assms(2)])
  show ?thesis
    using assms(1,3)
    by (rule fold_sum_inv[where P = "\<lambda>s. \<forall>ke\<in>set s. own_key sheets ke", rotated])
       (rule inner)
qed

lemma scanSheet_own_key:
  assumes "\<forall>ke\<in>set deps. own_key sheets ke" and "sheet \<in> sheets"
      and "scanSheet host scope sheet deps = Inr deps'"
  shows "\<forall>ke\<in>set deps'. own_key sheets ke"
  using assms(3) unfolding scanSheet_def
  apply (simp split: option.splits sum.splits)
  apply (erule scanRows_own_key[OF assms(1,2)])
  done

lemma scanFormulas_own_key:
  assumes "scanFormulas host scope = Inr deps"
  shows "\<forall>ke\<in>set deps. own_key (scannedSheets host scope) ke"
proof -
  have "\<exists>sheets. set sheets = scannedSheets host scope \<and>
      fold_sum (scanSheet host scope) sheets [] = Inr deps"
  proof (cases "scope_type scope = ScopeWorkbook")
    case True
    with assms have "set (worksheetNames host) = scannedSheets host scope \<and>
        fold_sum (scanSheet host scope) (worksheetNames host) [] = Inr deps"
      by (simp add: scanFormulas_def scannedSheets_def)
    then show ?thesis by (rule exI)
  next
    case False
    with assms obtain sh where sh: "sheetName scope = Some sh"
      by (cases "sheetName scope") (simp_all add: scanFormulas_def)
    with assms False have "set [sh] = scannedSheets host scope \<and>
        fold_sum (scanSheet host scope) [sh] [] = Inr deps"
      by (simp add: scanFormulas_def scannedSheets_def del: fold_sum.simps)
    then show ?thesis by (rule exI)
  qed
  then obtain sheets where
    m: "set sheets = scannedSheets host scope"
    and f: "fold_sum (scanSheet host scope) sheets [] = Inr deps"
    by blast
  have "\<forall>ke\<in>set ([] :: DepMap). own_key (scannedSheets host scope) ke" by simp
  then show ?thesis using f
  proof (rule fold_sum_inv[where P = "\<lambda>s. \<forall>ke\<in>set s. own_key (scannedSheets host scope) ke",
        rotated])
    fix x s s'
    assume "x \<in> set sheets" and "\<forall>ke\<in>set s. own_key (scannedSheets host scope) ke"
      and "scanSheet host scope x s = Inr s'"
    then show "\<forall>ke\<in>set s'. own_key (scannedSheets host scope) ke"
      using scanSheet_own_key[of s "scannedSheets host scope" x host scope s'] m by blast
  qed
qed

text \<open>
  Claim C3, as amended. The key of every scanned formula cell is the name of a scanned
  sheet, \<open>!\<close> and an address without \<open>$\<close> (it is built from the coordinates of the
  cell), and the precedents of its entry are the keys that \<open>extractPrecedents\<close> finds in
  its formula with that sheet as the current one. Every precedent key found in a formula
  is a sheet part, \<open>!\<close> and a reference that is not empty and is a part of the text of
  the formula, taken as it is written. For a formula that is \<open>=\<close> followed by a single
  cell reference (an optional \<open>$\<close>, letters, an optional \<open>$\<close>, digits), the only
  precedent key is the current sheet, \<open>!\<close> and the reference unchanged, with its \<open>$\<close>
  markers; such a reference with a \<open>$\<close> marker and the same reference without markers
  give different precedent keys.
\<close>

theorem graph_keys_not_normalized:
  assumes "ls \<noteq> []" and "\<forall>c\<in>set ls. is_letter c"
      and "ds \<noteq> []" and "\<forall>c\<in>set ds. is_digit c"
      and "d1 = [] \<or> d1 = ''$''" and "d2 = [] \<or> d2 = ''$''"
  shows "(\<forall>deps k e. scanFormulas host scope = Inr deps \<and> (k, e) \<in> set deps \<longrightarrow>
            (\<exists>sh cell. sh \<in> scannedSheets host scope \<and> k = sh @ ''!'' @ cell \<and>
                        CHR ''$'' \<notin> set cell \<and>
                        precedents e = extractPrecedents (formula e) sh)) \<and>
         (\<forall>k\<in>set (extractPrecedents formulaText sheet).
            \<exists>sh ref. k = sh @ ''!'' @ ref \<and> ref \<noteq> [] \<and> part_of ref formulaText) \<and>
         extractPrecedents (''='' @ d1 @ ls @ d2 @ ds) sheet = [sheet @ ''!'' @ d1 @ ls @ d2 @ ds] \<and>
         (d1 @ d2 \<noteq> [] \<longrightarrow>
            extractPrecedents (''='' @ d1 @ ls @ d2 @ ds) sheet \<noteq>
            extractPrecedents (''='' @ ls @ ds) sheet)"
proof (intro conjI allI impI ballI)
  fix deps k e
  assume "scanFormulas host scope = Inr deps \<and> (k, e) \<in> set deps"
  then have "own_key (scannedSheets host scope) (k, e)" using scanFormulas_own_key by blast
  then show "\<exists>sh cell. sh \<in> scannedSheets host scope \<and> k = sh @ ''!'' @ cell \<and>
                        CHR ''$'' \<notin> set cell \<and>
                        precedents e = extractPrecedents (formula e) sh"
    by (simp add: own_key_def)
next
  fix k
  assume "k \<in> set (extractPrecedents formulaText sheet)"
  then show "\<exists>sh ref. k = sh @ ''!'' @ ref \<and> ref \<noteq> [] \<and> part_of ref formulaText"
    by (rule extractPrecedents_keys)
next
  show "extractPrecedents (''='' @ d1 @ ls @ d2 @ ds) sheet = [sheet @ ''!'' @ d1 @ ls @ d2 @ ds]"
    by (rule extractPrecedents_single[OF assms])
next
  assume ne: "d1 @ d2 \<noteq> []"
  have a: "extractPrecedents (''='' @ d1 @ ls @ d2 @ ds) sheet = [sheet @ ''!'' @ d1 @ ls @ d2 @ ds]"
    by (rule extractPrecedents_single[OF assms])
  have b: "extractPrecedents (''='' @ [] @ ls @ [] @ ds) sheet = [sheet @ ''!'' @ [] @ ls @ [] @ ds]"
    by (rule extractPrecedents_single[OF assms(1-4)]) simp_all
  have "length (d1 @ ls @ d2 @ ds) \<noteq> length (ls @ ds)" using ne by auto
  then have "d1 @ ls @ d2 @ ds \<noteq> ls @ ds" by metis
  with a b show "extractPrecedents (''='' @ d1 @ ls @ d2 @ ds) sheet \<noteq>
      extractPrecedents (''='' @ ls @ ds) sheet"
    by simp
qed

theorem graph_keys_not_normalized_witness:
  "scanFormulas exampleHost exampleScope =
     Inr [(''S!B1'', \<lparr>precedents = [''S!$A$1''], dependents = [], formula = ''=$A$1''\<rparr>),
          (''S!B2'', \<lparr>precedents = [''S!A1''], dependents = [], formula = ''=A1''\<rparr>)] \<and>
   scannedSheets exampleHost exampleScope = {''S''} \<and>
   (\<exists>cell. ''S!B1'' = ''S'' @ ''!'' @ cell \<and> CHR ''$'' \<notin> set cell) \<and>
   extractPrecedents ''=$A$1'' ''S'' = [''S!$A$1''] \<and>
   (\<exists>sh ref. ''S!$A$1'' = sh @ ''!'' @ ref \<and> ref \<noteq> [] \<and> part_of ref ''=$A$1'') \<and>
   extractPrecedents ''=$A$1'' ''S'' \<noteq> extractPrecedents ''=A1'' ''S''"
proof -
  let ?e1 = "\<lparr>precedents = [''S!$A$1''], dependents = [], formula = ''=$A$1''\<rparr>"
  let ?e2 = "\<lparr>precedents = [''S!A1''], dependents = [], formula = ''=A1''\<rparr>"
  have sc: "scanFormulas exampleHost exampleScope = Inr [(''S!B1'', ?e1), (''S!B2'', ?e2)]"
    by code_simp
  have l: "\<forall>c\<in>set ''A''. is_letter c" by (simp add: is_letter_def is_upper_def)
  have d: "\<forall>c\<in>set ''1''. is_digit c" by (simp add: is_digit_def)
  have ss: "scannedSheets exampleHost exampleScope = {''S''}"
    by (simp add: scannedSheets_def exampleScope_def)
  have th: "(\<forall>deps k e. scanFormulas exampleHost exampleScope = Inr deps \<and> (k, e) \<in> set deps \<longrightarrow>
            (\<exists>sh cell. sh \<in> scannedSheets exampleHost exampleScope \<and> k = sh @ ''!'' @ cell \<and>
                        CHR ''$'' \<notin> set cell \<and>
                        precedents e = extractPrecedents (formula e) sh)) \<and>
         (\<forall>k\<in>set (extractPrecedents ''=$A$1'' ''S'').
            \<exists>sh ref. k = sh @ ''!'' @ ref \<and> ref \<noteq> [] \<and> part_of ref ''=$A$1'') \<and>
         extractPrecedents (''='' @ ''$'' @ ''A'' @ ''$'' @ ''1'') ''S'' =
           [''S'' @ ''!'' @ ''$'' @ ''A'' @ ''$'' @ ''1''] \<and>
         (''$'' @ ''$'' \<noteq> [] \<longrightarrow>
            extractPrecedents (''='' @ ''$'' @ ''A'' @ ''$'' @ ''1'') ''S'' \<noteq>
            extractPrecedents (''='' @ ''A'' @ ''1'') ''S'')"
    by (rule graph_keys_not_normalized[of "''A''" "''1''" "''$''" "''$''" exampleHost exampleScope
          "''=$A$1''" "''S''", OF _ l _ d]) simp_all
  note t1 = th[THEN conjunct1]
  note t2 = th[THEN conjunct2, THEN conjunct1]
  note t3 = th[THEN conjunct2, THEN conjunct2, THEN conjunct1]
  note t4 = th[THEN conjunct2, THEN conjunct2, THEN conjunct2]
  from t1[rule_format, of "[(''S!B1'', ?e1), (''S!B2'', ?e2)]" "''S!B1''" ?e1] sc
  have a: "\<exists>sh cell. sh \<in> scannedSheets exampleHost exampleScope \<and>
      ''S!B1'' = sh @ ''!'' @ cell \<and> CHR ''$'' \<notin> set cell \<and>
      precedents ?e1 = extractPrecedents (formula ?e1) sh"
    by simp
  from t3 have b: "extractPrecedents ''=$A$1'' ''S'' = [''S!$A$1'']" by simp
  from t2 b have c: "\<exists>sh ref. ''S!$A$1'' = sh @ ''!'' @ ref \<and> ref \<noteq> [] \<and> part_of ref ''=$A$1''"
    by simp
  from t4 have e: "extractPrecedents ''=$A$1'' ''S'' \<noteq> extractPrecedents ''=A1'' ''S''" by simp
  from a have a': "\<exists>cell. ''S!B1'' = ''S'' @ ''!'' @ cell \<and> CHR ''$'' \<notin> set cell"
    unfolding ss by blast
  from sc ss a' b c e show ?thesis by blast
qed

text \<open>
  The graph of the sheet \<open>S\<close> with \<open>=$A$1\<close> in \<open>B1\<close> and \<open>=A1\<close> in \<open>B2\<close>. The two formulas
  refer to the same cell, and the graph holds two entries for it: \<open>S!$A$1\<close>, with the
  dependent \<open>S!B1\<close>, and \<open>S!A1\<close>, with the dependent \<open>S!B2\<close>.
\<close>

theorem graph_keys_dollar_counterexample:
  "buildDependencyGraph exampleHost exampleScope = Inr exampleGraph \<and>
   map_get exampleGraph ''S!$A$1'' =
     Some \<lparr>precedents = [], dependents = [''S!B1''], formula = []\<rparr> \<and>
   map_get exampleGraph ''S!A1'' =
     Some \<lparr>precedents = [], dependents = [''S!B2''], formula = []\<rparr>"
  by code_simp

section \<open>Properties of the classification\<close>




















end
